theory Spec2Isabelle
  imports Complex_Main "HOL-Library.AList" "HOL-Library.Multiset"
begin

section \<open>Merging FluidAudio diarisation chunks: the model\<close>

text \<open>
  The development embeds \<^verbatim>\<open>scripts/merge_fluidaudio_chunks.py\<close>. Python floats are
  idealised as real numbers, extended by the one special value the script can produce from
  real inputs (the result of \<^verbatim>\<open>0.0 / 0.0\<close>). Python dictionaries are association lists
  in insertion order with distinct keys: \<open>map_of\<close> reads a key, \<open>AList.update\<close> is the
  assignment \<^verbatim>\<open>d[k] = v\<close> (an existing key keeps its position, a new one goes last).
  Every exception the script can raise on well-formed chunk documents is a value of
  \<open>py_error\<close>; reading and parsing the files is outside the model, a chunk file is its
  parsed content.
\<close>

subsection \<open>Exceptions\<close>

datatype py_error =
    InvalidIntLiteral string    \<comment> \<open>ValueError of \<^verbatim>\<open>int(sid)\<close>\<close>
  | ShapesNotAligned nat nat    \<comment> \<open>ValueError of \<^verbatim>\<open>np.dot\<close> on vectors of different length\<close>
  | InhomogeneousShape          \<comment> \<open>ValueError of \<^verbatim>\<open>np.mean\<close> on rows of different length\<close>
  | KeyError string
  | IndexError

subsection \<open>The builtins \<^verbatim>\<open>str\<close> and \<^verbatim>\<open>int\<close> on decimal strings\<close>

text \<open>
  \<^verbatim>\<open>str\<close> writes an integer in decimal, with a minus sign when it is negative.
  \<^verbatim>\<open>int\<close> strips white space from both ends, reads an optional sign and then digits,
  between which single underscores may stand; anything else is a \<^verbatim>\<open>ValueError\<close>. The
  model is the builtin on ASCII strings: the digits and white space beyond ASCII that
  \<^verbatim>\<open>int\<close> also reads are not modelled, and the limit that recent Python versions put on
  the number of digits is left out.
\<close>

definition digit_char :: "nat \<Rightarrow> char" where
  "digit_char d = ''0123456789'' ! d"

definition digit_val :: "char \<Rightarrow> nat option" where
  "digit_val c =
     map_of [(CHR ''0'', 0), (CHR ''1'', 1), (CHR ''2'', 2), (CHR ''3'', 3), (CHR ''4'', 4),
             (CHR ''5'', 5), (CHR ''6'', 6), (CHR ''7'', 7), (CHR ''8'', 8), (CHR ''9'', 9)] c"

function digits_of :: "nat \<Rightarrow> string" where
  "digits_of n = (if n < 10 then [digit_char n] else digits_of (n div 10) @ [digit_char (n mod 10)])"
  by pat_completeness auto
termination
  by (relation "measure id") auto

declare digits_of.simps [simp del]

definition py_str :: "int \<Rightarrow> string" where
  "py_str i = (if i < 0 then CHR ''-'' # digits_of (nat (- i)) else digits_of (nat i))"

text \<open>
  The characters that \<^verbatim>\<open>int\<close> strips from both ends of an ASCII string: tab, line feed,
  vertical tab, form feed, carriage return and the space. (The separators \<^verbatim>\<open>0x1C\<close> to
  \<^verbatim>\<open>0x1F\<close>, which \<^verbatim>\<open>str.strip\<close> removes, are not among them.)
\<close>

definition is_space :: "char \<Rightarrow> bool" where
  "is_space c = (c \<in> set [CHR 0x09, CHR 0x0A, CHR 0x0B, CHR 0x0C, CHR 0x0D, CHR '' ''])"

text \<open>A string of the model stands for the Python string with the same ASCII characters.\<close>

definition is_ascii :: "char \<Rightarrow> bool" where
  "is_ascii c = ((of_char c :: nat) < 128)"

definition strip :: "string \<Rightarrow> string" where
  "strip s = rev (dropWhile is_space (rev (dropWhile is_space s)))"

text \<open>Digits after the first one; a single underscore may stand between two digits.\<close>

fun parse_rest :: "nat \<Rightarrow> string \<Rightarrow> nat option" where
  "parse_rest acc [] = Some acc"
| "parse_rest acc [c] =
     (case digit_val c of None \<Rightarrow> None | Some v \<Rightarrow> Some (10 * acc + v))"
| "parse_rest acc (c # d # ds) =
     (if c = CHR ''_'' then
        (case digit_val d of None \<Rightarrow> None | Some v \<Rightarrow> parse_rest (10 * acc + v) ds)
      else
        (case digit_val c of None \<Rightarrow> None | Some v \<Rightarrow> parse_rest (10 * acc + v) (d # ds)))"

definition parse_nat :: "string \<Rightarrow> nat option" where
  "parse_nat s =
     (case s of [] \<Rightarrow> None
      | c # cs \<Rightarrow> (case digit_val c of None \<Rightarrow> None | Some v \<Rightarrow> parse_rest v cs))"

definition py_int :: "string \<Rightarrow> int option" where
  "py_int s =
     (case strip s of [] \<Rightarrow> None
      | c # cs \<Rightarrow>
          if c = CHR ''-'' then map_option (\<lambda>n. - int n) (parse_nat cs)
          else if c = CHR ''+'' then map_option int (parse_nat cs)
          else map_option int (parse_nat (c # cs)))"

subsection \<open>Data\<close>

type_synonym embedding = "real list"

record segment =
  startTimeSeconds :: real
  endTimeSeconds :: real
  speakerId :: string
  qualityScore :: real
  embedding :: embedding

text \<open>What the script reads of a chunk's JSON document.\<close>

record chunk =
  segments :: "segment list"
  durationSeconds :: real

text \<open>A chunk file: its parsed JSON content and the modification time of the file.\<close>

record chunk_file =
  content :: chunk
  st_mtime :: real

text \<open>The merged document: it has the chunk's two fields and the summary fields.\<close>

record merged = chunk +
  audioFile :: string
  config_merged :: bool
  config_chunks :: nat
  speakerCount :: nat
  timestamp :: real

type_synonym 'v dict = "(string \<times> 'v) list"

datatype npfloat = Val real | NaN

subsection \<open>\<^verbatim>\<open>cosine_similarity\<close>\<close>

definition dot :: "embedding \<Rightarrow> embedding \<Rightarrow> real" where
  "dot a b = (\<Sum>(x, y)\<leftarrow>zip a b. x * y)"

definition linalg_norm :: "embedding \<Rightarrow> real" where
  "linalg_norm a = sqrt (\<Sum>x\<leftarrow>a. x * x)"

text \<open>
  \<^verbatim>\<open>np.dot\<close> raises on vectors of different length; the division of two numpy floats never
  raises: with a zero denominator (the numerator is then zero as well) it yields NaN.
\<close>

definition cosine_similarity :: "embedding \<Rightarrow> embedding \<Rightarrow> py_error + npfloat" where
  "cosine_similarity a b =
     (if length a \<noteq> length b then Inl (ShapesNotAligned (length a) (length b))
      else
        let n = linalg_norm a * linalg_norm b in
        if n = 0 then Inr NaN else Inr (Val (dot a b / n)))"

subsection \<open>\<^verbatim>\<open>get_speaker_centroids\<close>\<close>

definition append_embedding :: "embedding list dict \<Rightarrow> segment \<Rightarrow> embedding list dict" where
  "append_embedding speaker_embeddings seg =
     (let sid = speakerId seg;
          d = (if map_of speaker_embeddings sid = None
               then AList.update sid [] speaker_embeddings else speaker_embeddings)
      in case map_of d sid of
           None \<Rightarrow> d
         | Some es \<Rightarrow> AList.update sid (es @ [embedding seg]) d)"

text \<open>
  \<^verbatim>\<open>np.mean(embeddings, axis=0)\<close> on a list of rows: the column means, an error when the
  rows differ in length. The script calls it on non-empty lists only.
\<close>

definition np_mean_axis0 :: "embedding list \<Rightarrow> py_error + embedding" where
  "np_mean_axis0 es =
     (case es of
        [] \<Rightarrow> Inr []
      | e # _ \<Rightarrow>
          if list_ex (\<lambda>e'. length e' \<noteq> length e) es then Inl InhomogeneousShape
          else Inr (map (\<lambda>j. (\<Sum>e'\<leftarrow>es. e' ! j) / real (length es)) [0..<length e]))"

fun centroids_loop :: "embedding list dict \<Rightarrow> embedding dict \<Rightarrow> py_error + embedding dict" where
  "centroids_loop [] centroids = Inr centroids"
| "centroids_loop ((sid, embeddings) # rest) centroids =
     (case np_mean_axis0 embeddings of
        Inl e \<Rightarrow> Inl e
      | Inr m \<Rightarrow> centroids_loop rest (AList.update sid m centroids))"

definition get_speaker_centroids :: "segment list \<Rightarrow> py_error + embedding dict" where
  "get_speaker_centroids segs = centroids_loop (foldl append_embedding [] segs) []"

subsection \<open>\<^verbatim>\<open>map_speakers\<close>\<close>

fun ints_of :: "string list \<Rightarrow> py_error + int list" where
  "ints_of [] = Inr []"
| "ints_of (sid # sids) =
     (case py_int sid of
        None \<Rightarrow> Inl (InvalidIntLiteral sid)
      | Some n \<Rightarrow> (case ints_of sids of Inl e \<Rightarrow> Inl e | Inr ns \<Rightarrow> Inr (n # ns)))"

definition initial_next_id :: "embedding dict \<Rightarrow> py_error + int" where
  "initial_next_id existing_centroids =
     (if existing_centroids = [] then Inr 1
      else case ints_of (map fst existing_centroids) of
             Inl e \<Rightarrow> Inl e
           | Inr ns \<Rightarrow> Inr (fold max (tl ns) (hd ns) + 1))"

text \<open>The inner loop: the running best match and best similarity.\<close>

fun best_match_loop ::
  "embedding \<Rightarrow> embedding dict \<Rightarrow> string option \<times> real \<Rightarrow> py_error + (string option \<times> real)" where
  "best_match_loop new_centroid [] (best_match, best_sim) = Inr (best_match, best_sim)"
| "best_match_loop new_centroid ((existing_sid, existing_centroid) # rest) (best_match, best_sim) =
     (case cosine_similarity new_centroid existing_centroid of
        Inl e \<Rightarrow> Inl e
      | Inr NaN \<Rightarrow> best_match_loop new_centroid rest (best_match, best_sim)
      | Inr (Val sim) \<Rightarrow>
          if sim > best_sim then best_match_loop new_centroid rest (Some existing_sid, sim)
          else best_match_loop new_centroid rest (best_match, best_sim))"

text \<open>\<^verbatim>\<open>if best_match:\<close> tests the truth value: \<^verbatim>\<open>None\<close> and the empty string are false.\<close>

definition truthy :: "string option \<Rightarrow> bool" where
  "truthy best_match = (case best_match of None \<Rightarrow> False | Some s \<Rightarrow> s \<noteq> [])"

fun map_speakers_loop ::
  "embedding dict \<Rightarrow> embedding dict \<Rightarrow> real \<Rightarrow> string dict \<times> int \<Rightarrow> py_error + (string dict \<times> int)" where
  "map_speakers_loop [] existing_centroids threshold (mapping, next_id) = Inr (mapping, next_id)"
| "map_speakers_loop ((new_sid, new_centroid) # rest) existing_centroids threshold (mapping, next_id) =
     (case best_match_loop new_centroid existing_centroids (None, threshold) of
        Inl e \<Rightarrow> Inl e
      | Inr (best_match, best_sim) \<Rightarrow>
          if truthy best_match then
            map_speakers_loop rest existing_centroids threshold
              (AList.update new_sid (the best_match) mapping, next_id)
          else
            map_speakers_loop rest existing_centroids threshold
              (AList.update new_sid (py_str next_id) mapping, next_id + 1))"

definition map_speakers :: "embedding dict \<Rightarrow> embedding dict \<Rightarrow> real \<Rightarrow> py_error + string dict" where
  "map_speakers new_centroids existing_centroids threshold =
     (case initial_next_id existing_centroids of
        Inl e \<Rightarrow> Inl e
      | Inr next_id \<Rightarrow>
          (case map_speakers_loop new_centroids existing_centroids threshold ([], next_id) of
             Inl e \<Rightarrow> Inl e
           | Inr (mapping, _) \<Rightarrow> Inr mapping))"

definition default_threshold :: real where
  "default_threshold = 85 / 100"

subsection \<open>\<^verbatim>\<open>merge_chunks\<close>\<close>

text \<open>The loop that adds the chunk's new speakers to the global centroids.\<close>

fun update_global ::
  "string dict \<Rightarrow> embedding dict \<Rightarrow> embedding dict \<Rightarrow> py_error + embedding dict" where
  "update_global [] chunk_centroids global_centroids = Inr global_centroids"
| "update_global ((new_sid, global_sid) # rest) chunk_centroids global_centroids =
     (if map_of global_centroids global_sid = None then
        (case map_of chunk_centroids new_sid of
           None \<Rightarrow> Inl (KeyError new_sid)
         | Some c \<Rightarrow>
             update_global rest chunk_centroids (AList.update global_sid c global_centroids))
      else update_global rest chunk_centroids global_centroids)"

text \<open>The three variables the loop over the chunks updates.\<close>

record merge_state =
  all_segments :: "segment list"
  global_centroids :: "embedding dict"
  total_duration :: real

definition initial_state :: merge_state where
  "initial_state = \<lparr>all_segments = [], global_centroids = [], total_duration = 0\<rparr>"

text \<open>The test of the overlap region; \<^verbatim>\<open>and\<close> evaluates its right operand only when \<open>i > 0\<close>.\<close>

definition in_overlap :: "real list \<Rightarrow> real \<Rightarrow> nat \<Rightarrow> real \<Rightarrow> py_error + bool" where
  "in_overlap chunk_offsets chunk_size i start =
     (if i > 0 then
        (if i - 1 < length chunk_offsets
         then Inr (start < chunk_offsets ! (i - 1) + chunk_size)
         else Inl IndexError)
      else Inr False)"

fun process_segments ::
  "real list \<Rightarrow> real \<Rightarrow> nat \<Rightarrow> real \<Rightarrow> string dict \<Rightarrow> segment list \<Rightarrow> segment list
     \<Rightarrow> py_error + segment list" where
  "process_segments chunk_offsets chunk_size i offset speaker_map [] all_segs = Inr all_segs"
| "process_segments chunk_offsets chunk_size i offset speaker_map (seg # rest) all_segs =
     (let start = startTimeSeconds seg + offset;
          end = endTimeSeconds seg + offset
      in case in_overlap chunk_offsets chunk_size i start of
           Inl e \<Rightarrow> Inl e
         | Inr True \<Rightarrow> process_segments chunk_offsets chunk_size i offset speaker_map rest all_segs
         | Inr False \<Rightarrow>
             (case map_of speaker_map (speakerId seg) of
                None \<Rightarrow> Inl (KeyError (speakerId seg))
              | Some g \<Rightarrow>
                  process_segments chunk_offsets chunk_size i offset speaker_map rest
                    (all_segs @
                     [\<lparr>startTimeSeconds = start, endTimeSeconds = end, speakerId = g,
                       qualityScore = qualityScore seg, embedding = embedding seg\<rparr>])))"

text \<open>The speaker map and the global centroids after the branch on \<open>i == 0\<close>.\<close>

definition resolve_speakers ::
  "nat \<Rightarrow> embedding dict \<Rightarrow> embedding dict \<Rightarrow> py_error + (string dict \<times> embedding dict)" where
  "resolve_speakers i chunk_centroids global_cs =
     (if i = 0 then Inr (map (\<lambda>(sid, c). (sid, sid)) chunk_centroids, chunk_centroids)
      else
        (case map_speakers chunk_centroids global_cs default_threshold of
           Inl e \<Rightarrow> Inl e
         | Inr speaker_map \<Rightarrow>
             (case update_global speaker_map chunk_centroids global_cs of
                Inl e \<Rightarrow> Inl e
              | Inr g \<Rightarrow> Inr (speaker_map, g))))"

text \<open>One iteration of the loop over the chunks.\<close>

definition process_chunk ::
  "real list \<Rightarrow> real \<Rightarrow> nat \<Rightarrow> chunk_file \<times> real \<Rightarrow> merge_state \<Rightarrow> py_error + merge_state" where
  "process_chunk chunk_offsets chunk_size i cf st =
     (let data = content (fst cf); offset = snd cf in
      if segments data = [] then Inr st
      else
        (case get_speaker_centroids (segments data) of
           Inl e \<Rightarrow> Inl e
         | Inr chunk_centroids \<Rightarrow>
             (case resolve_speakers i chunk_centroids (global_centroids st) of
                Inl e \<Rightarrow> Inl e
              | Inr (speaker_map, g) \<Rightarrow>
                  (case process_segments chunk_offsets chunk_size i offset speaker_map
                          (segments data) (all_segments st) of
                     Inl e \<Rightarrow> Inl e
                   | Inr segs \<Rightarrow>
                       Inr \<lparr>all_segments = segs, global_centroids = g,
                            total_duration =
                              max (total_duration st) (durationSeconds data + offset)\<rparr>))))"

fun merge_loop ::
  "real list \<Rightarrow> real \<Rightarrow> nat \<Rightarrow> (chunk_file \<times> real) list \<Rightarrow> merge_state \<Rightarrow> py_error + merge_state" where
  "merge_loop chunk_offsets chunk_size i [] st = Inr st"
| "merge_loop chunk_offsets chunk_size i (cf # rest) st =
     (case process_chunk chunk_offsets chunk_size i cf st of
        Inl e \<Rightarrow> Inl e
      | Inr st' \<Rightarrow> merge_loop chunk_offsets chunk_size (Suc i) rest st')"

definition merge_chunks ::
  "chunk_file list \<Rightarrow> real list \<Rightarrow> real \<Rightarrow> real \<Rightarrow> py_error + merged" where
  "merge_chunks chunk_files chunk_offsets chunk_size overlap =
     (case merge_loop chunk_offsets chunk_size 0 (zip chunk_files chunk_offsets) initial_state of
        Inl e \<Rightarrow> Inl e
      | Inr st \<Rightarrow>
          Inr \<lparr>segments = sort_key startTimeSeconds (all_segments st),
               durationSeconds = total_duration st,
               audioFile = ''merged'',
               config_merged = True,
               config_chunks = length chunk_files,
               speakerCount = length (global_centroids st),
               timestamp = (case chunk_files of [] \<Rightarrow> 0 | f # _ \<Rightarrow> st_mtime f)\<rparr>)"

section \<open>Notions used in the statements\<close>

text \<open>A segment moved by the chunk's offset, and a segment with its speaker replaced.\<close>

definition shifted :: "real \<Rightarrow> segment \<Rightarrow> segment" where
  "shifted offset seg =
     seg\<lparr>startTimeSeconds := startTimeSeconds seg + offset,
         endTimeSeconds := endTimeSeconds seg + offset\<rparr>"

definition relabelled :: "string \<Rightarrow> segment \<Rightarrow> segment" where
  "relabelled g seg = seg\<lparr>speakerId := g\<rparr>"

definition unlabelled :: "segment \<Rightarrow> segment" where
  "unlabelled seg = relabelled [] seg"

text \<open>Decimal digits and the number a string of digits denotes.\<close>

definition is_digit :: "char \<Rightarrow> bool" where
  "is_digit c = (\<exists>d<10. c = digit_char d)"

definition decimal_value :: "nat \<Rightarrow> string \<Rightarrow> nat" where
  "decimal_value acc s = foldl (\<lambda>a c. 10 * a + the (digit_val c)) acc s"

text \<open>The IDs \<^verbatim>\<open>str(n)\<close>, \<^verbatim>\<open>str(n + 1)\<close>, ... , \<^verbatim>\<open>str(n + u - 1)\<close>.\<close>

definition minted :: "int \<Rightarrow> nat \<Rightarrow> string list" where
  "minted n u = map (\<lambda>j. py_str (n + int j)) [0..<u]"

text \<open>
  The speaker IDs of the chunk at index 0, in the order of its centroids; the shape of the
  keys of the registry (those IDs, then consecutive minted numbers above them); and what a
  state of the loop keeps true.
\<close>

definition first_chunk_ids :: "chunk_file list \<Rightarrow> real list \<Rightarrow> string list" where
  "first_chunk_ids chunk_files chunk_offsets =
     (case zip chunk_files chunk_offsets of
        [] \<Rightarrow> []
      | (f, off) # _ \<Rightarrow>
          (case get_speaker_centroids (segments (content f)) of
             Inl e \<Rightarrow> []
           | Inr cc \<Rightarrow> map fst cc))"

definition registry_shape :: "string list \<Rightarrow> string list \<Rightarrow> bool" where
  "registry_shape ids0 ks =
     (\<exists>n k. ks = ids0 @ minted n k \<and>
        (ids0 = [] \<longrightarrow> n = 1) \<and>
        (0 < k \<longrightarrow>
           (\<forall>g \<in> set ids0. \<exists>m. py_int g = Some m \<and> m < n) \<and>
           (ids0 \<noteq> [] \<longrightarrow> (\<exists>g \<in> set ids0. py_int g = Some (n - 1)))))"

definition registry_invariant :: "string list \<Rightarrow> merge_state \<Rightarrow> bool" where
  "registry_invariant ids0 st =
     (distinct (map fst (global_centroids st)) \<and>
      registry_shape ids0 (map fst (global_centroids st)) \<and>
      speakerId ` set (all_segments st) \<subseteq> set (map fst (global_centroids st)))"

subsection \<open>A run on three chunks\<close>

text \<open>
  Chunks of ten seconds. The first has one speaker; the second has no segments; the third
  has a segment before the boundary at 20 seconds, one on it and one after it, a local
  speaker \<^verbatim>\<open>1\<close> that is new and a local speaker \<^verbatim>\<open>2\<close> that is the first chunk's speaker.
\<close>

definition example_first :: chunk_file where
  "example_first =
     \<lparr>content =
        \<lparr>segments =
           [\<lparr>startTimeSeconds = 0, endTimeSeconds = 9, speakerId = ''1'',
             qualityScore = 1, embedding = [1, 0]\<rparr>],
         durationSeconds = 10\<rparr>,
      st_mtime = 5\<rparr>"

definition example_empty :: chunk_file where
  "example_empty = \<lparr>content = \<lparr>segments = [], durationSeconds = 99\<rparr>, st_mtime = 6\<rparr>"

definition example_later :: chunk_file where
  "example_later =
     \<lparr>content =
        \<lparr>segments =
           [\<lparr>startTimeSeconds = - 2, endTimeSeconds = 0, speakerId = ''1'',
             qualityScore = 1, embedding = [0, 1]\<rparr>,
            \<lparr>startTimeSeconds = 1, endTimeSeconds = 2, speakerId = ''2'',
             qualityScore = 1, embedding = [2, 0]\<rparr>,
            \<lparr>startTimeSeconds = 0, endTimeSeconds = 1, speakerId = ''1'',
             qualityScore = 1, embedding = [0, 1]\<rparr>],
         durationSeconds = 5\<rparr>,
      st_mtime = 7\<rparr>"

text \<open>A chunk whose only speaker has a name that is not a number.\<close>

definition example_named :: chunk_file where
  "example_named =
     \<lparr>content =
        \<lparr>segments =
           [\<lparr>startTimeSeconds = 0, endTimeSeconds = 5, speakerId = ''A'',
             qualityScore = 1, embedding = [1, 0]\<rparr>],
         durationSeconds = 10\<rparr>,
      st_mtime = 8\<rparr>"

text \<open>A chunk whose speakers are numbered 7 and 3, in this order.\<close>

definition example_unordered :: chunk_file where
  "example_unordered =
     \<lparr>content =
        \<lparr>segments =
           [\<lparr>startTimeSeconds = 0, endTimeSeconds = 1, speakerId = ''7'',
             qualityScore = 1, embedding = [1, 0]\<rparr>,
            \<lparr>startTimeSeconds = 1, endTimeSeconds = 2, speakerId = ''3'',
             qualityScore = 1, embedding = [0, 1]\<rparr>],
         durationSeconds = 10\<rparr>,
      st_mtime = 9\<rparr>"

definition example_state1 :: merge_state where
  "example_state1 =
     \<lparr>all_segments =
        [\<lparr>startTimeSeconds = 0, endTimeSeconds = 9, speakerId = ''1'',
          qualityScore = 1, embedding = [1, 0]\<rparr>],
      global_centroids = [(''1'', [1, 0])],
      total_duration = 10\<rparr>"

definition example_state2 :: merge_state where
  "example_state2 =
     \<lparr>all_segments =
        [\<lparr>startTimeSeconds = 0, endTimeSeconds = 9, speakerId = ''1'',
          qualityScore = 1, embedding = [1, 0]\<rparr>,
         \<lparr>startTimeSeconds = 21, endTimeSeconds = 22, speakerId = ''1'',
          qualityScore = 1, embedding = [2, 0]\<rparr>,
         \<lparr>startTimeSeconds = 20, endTimeSeconds = 21, speakerId = ''2'',
          qualityScore = 1, embedding = [0, 1]\<rparr>],
      global_centroids = [(''1'', [1, 0]), (''2'', [0, 1])],
      total_duration = 25\<rparr>"

definition example_merged :: merged where
  "example_merged =
     \<lparr>segments =
        [\<lparr>startTimeSeconds = 0, endTimeSeconds = 9, speakerId = ''1'',
          qualityScore = 1, embedding = [1, 0]\<rparr>,
         \<lparr>startTimeSeconds = 20, endTimeSeconds = 21, speakerId = ''2'',
          qualityScore = 1, embedding = [0, 1]\<rparr>,
         \<lparr>startTimeSeconds = 21, endTimeSeconds = 22, speakerId = ''1'',
          qualityScore = 1, embedding = [2, 0]\<rparr>],
      durationSeconds = 25,
      audioFile = ''merged'', config_merged = True, config_chunks = 3,
      speakerCount = 2, timestamp = 5\<rparr>"

section \<open>Properties\<close>

subsection \<open>Evaluating the run on three chunks\<close>

lemmas py_int_eval = py_int_def strip_def is_space_def parse_nat_def digit_val_def
lemmas py_str_eval = py_str_def digits_of.simps digit_char_def
lemmas similarity_eval = cosine_similarity_def linalg_norm_def dot_def
lemmas centroids_eval = get_speaker_centroids_def append_embedding_def np_mean_axis0_def
lemmas map_speakers_eval = map_speakers_def initial_next_id_def truthy_def default_threshold_def
  py_int_eval py_str_eval similarity_eval
lemmas merge_eval = process_chunk_def resolve_speakers_def in_overlap_def initial_state_def
  Let_def centroids_eval map_speakers_eval

lemma step_first:
  "process_chunk [0, 10, 20] 10 0 (example_first, 0) initial_state = Inr example_state1"
  by (simp add: merge_eval example_first_def example_state1_def)

lemma step_empty: "process_chunk offs cs i (example_empty, off) st = Inr st"
  by (simp add: process_chunk_def example_empty_def)

lemma step_later:
  "process_chunk [0, 10, 20] 10 (Suc (Suc 0)) (example_later, 20) example_state1 =
   Inr example_state2"
  by (simp add: merge_eval example_later_def example_state1_def example_state2_def)

lemma merge_loop_example:
  "merge_loop [0, 10, 20] 10 0 [(example_first, 0), (example_empty, 10), (example_later, 20)]
     initial_state = Inr example_state2"
  by (simp add: step_first step_empty step_later)

lemma merge_chunks_example:
  "merge_chunks [example_first, example_empty, example_later] [0, 10, 20] 10 3 =
   Inr example_merged"
  by (simp add: merge_chunks_def merge_loop_example del: merge_loop.simps)
     (simp add: example_merged_def example_state2_def example_first_def)


subsection \<open>\<^verbatim>\<open>int\<close> reads what \<^verbatim>\<open>str\<close> writes\<close>

lemma digit_val_digit_char: "d < 10 \<Longrightarrow> digit_val (digit_char d) = Some d"
proof -
  assume "d < 10"
  then have "d \<in> {0, 1, 2, 3, 4, 5, 6, 7, 8, 9}" by auto
  then show ?thesis by (auto simp: digit_val_def digit_char_def)
qed

lemma digit_char_plain:
  assumes "d < 10"
  shows "\<not> is_space (digit_char d)" and "digit_char d \<noteq> CHR ''_''"
    and "digit_char d \<noteq> CHR ''-''" and "digit_char d \<noteq> CHR ''+''"
proof -
  from assms have "d \<in> {0, 1, 2, 3, 4, 5, 6, 7, 8, 9}" by auto
  then show "\<not> is_space (digit_char d)" and "digit_char d \<noteq> CHR ''_''"
    and "digit_char d \<noteq> CHR ''-''" and "digit_char d \<noteq> CHR ''+''"
    by (auto simp: is_space_def digit_char_def)
qed

lemma digits_of_nonempty: "digits_of n \<noteq> []"
  by (subst digits_of.simps) simp

lemma digits_of_digits: "c \<in> set (digits_of n) \<Longrightarrow> is_digit c"
proof (induction n rule: digits_of.induct)
  case (1 n)
  show ?case
  proof (cases "n < 10")
    case True
    with "1.prems" show ?thesis
      by (subst (asm) digits_of.simps) (auto simp: is_digit_def)
  next
    case False
    with "1.prems" have "c \<in> set (digits_of (n div 10)) \<or> c = digit_char (n mod 10)"
      by (subst (asm) digits_of.simps) auto
    moreover have "is_digit (digit_char (n mod 10))"
      unfolding is_digit_def by (rule exI [of _ "n mod 10"]) simp
    ultimately show ?thesis
      using "1.IH" False by auto
  qed
qed

lemma decimal_value_digits_of: "decimal_value 0 (digits_of n) = n"
proof (induction n rule: digits_of.induct)
  case (1 n)
  show ?case
  proof (cases "n < 10")
    case True
    then show ?thesis
      by (subst digits_of.simps) (simp add: decimal_value_def digit_val_digit_char)
  next
    case False
    with "1.IH" have "decimal_value 0 (digits_of (n div 10)) = n div 10" by simp
    with False show ?thesis
      by (subst digits_of.simps) (simp add: decimal_value_def digit_val_digit_char)
  qed
qed

lemma parse_rest_digits:
  "\<forall>c \<in> set s. is_digit c \<Longrightarrow> parse_rest acc s = Some (decimal_value acc s)"
proof (induction acc s rule: parse_rest.induct)
  case (1 acc)
  then show ?case by (simp add: decimal_value_def)
next
  case (2 acc c)
  then show ?case
    by (auto simp: decimal_value_def is_digit_def digit_val_digit_char)
next
  case (3 acc c d ds)
  from "3.prems" obtain v where v: "v < 10" "c = digit_char v"
    by (auto simp: is_digit_def)
  then have nu: "c \<noteq> CHR ''_''" and dv: "digit_val c = Some v"
    by (simp_all add: digit_char_plain digit_val_digit_char)
  from "3.IH"(2) [OF nu dv] "3.prems"
  have "parse_rest (10 * acc + v) (d # ds) = Some (decimal_value (10 * acc + v) (d # ds))"
    by simp
  with nu dv show ?case
    by (simp add: decimal_value_def)
qed

lemma parse_nat_digits_of: "parse_nat (digits_of n) = Some n"
proof -
  obtain c cs where s: "digits_of n = c # cs"
    using digits_of_nonempty [of n] by (cases "digits_of n") auto
  have all: "\<forall>x \<in> set (c # cs). is_digit x"
    using digits_of_digits [of _ n] s by auto
  then obtain v where v: "v < 10" "c = digit_char v"
    by (auto simp: is_digit_def)
  have "parse_rest v cs = Some (decimal_value v cs)"
    using all by (intro parse_rest_digits) simp
  moreover have "decimal_value v cs = decimal_value 0 (c # cs)"
    using v by (simp add: decimal_value_def digit_val_digit_char)
  ultimately show ?thesis
    using v decimal_value_digits_of [of n]
    by (simp add: parse_nat_def s digit_val_digit_char)
qed

lemma dropWhile_none: "\<forall>x \<in> set xs. \<not> P x \<Longrightarrow> dropWhile P xs = xs"
  by (cases xs) auto

lemma strip_plain: "\<forall>c \<in> set s. \<not> is_space c \<Longrightarrow> strip s = s"
  by (simp add: strip_def dropWhile_none)

lemma is_digit_plain:
  assumes "is_digit c"
  shows "\<not> is_space c" and "c \<noteq> CHR ''-''" and "c \<noteq> CHR ''+''"
  using assms by (auto simp: is_digit_def digit_char_plain)

lemma py_int_py_str: "py_int (py_str i) = Some i"
proof (cases "i < 0")
  case True
  have "\<forall>c \<in> set (CHR ''-'' # digits_of (nat (- i))). \<not> is_space c"
    using digits_of_digits is_digit_plain(1) by (auto simp: is_space_def)
  then have "strip (py_str i) = CHR ''-'' # digits_of (nat (- i))"
    using True by (simp add: py_str_def strip_plain)
  with True show ?thesis
    by (simp add: py_int_def parse_nat_digits_of)
next
  case False
  obtain c cs where s: "digits_of (nat i) = c # cs"
    using digits_of_nonempty [of "nat i"] by (cases "digits_of (nat i)") auto
  have dig: "\<forall>x \<in> set (digits_of (nat i)). is_digit x"
    using digits_of_digits by blast
  then have "is_digit c" by (simp add: s)
  then have c: "c \<noteq> CHR ''-''" "c \<noteq> CHR ''+''"
    by (simp_all add: is_digit_plain)
  have "strip (digits_of (nat i)) = digits_of (nat i)"
    using dig is_digit_plain(1) by (intro strip_plain) blast
  then have "strip (py_str i) = c # cs"
    using False by (simp add: py_str_def s)
  moreover have "parse_nat (c # cs) = Some (nat i)"
    using parse_nat_digits_of [of "nat i"] by (simp add: s)
  ultimately show ?thesis
    using False c by (simp add: py_int_def)
qed

lemma py_str_inj: "py_str i = py_str j \<Longrightarrow> i = j"
  by (metis option.inject py_int_py_str)

subsection \<open>Cosine similarity\<close>

lemma sum_squares_nonneg: "0 \<le> (\<Sum>x\<leftarrow>a. x * x)" for a :: "real list"
  by (induction a) auto

lemma cs_step:
  fixes x y s A B :: real
  assumes "s\<^sup>2 \<le> A * B" "0 \<le> A" "0 \<le> B"
  shows "(x * y + s)\<^sup>2 \<le> (x * x + A) * (y * y + B)"
proof -
  have sq: "(2 * x * y * s)\<^sup>2 \<le> (x * x * B + A * y * y)\<^sup>2"
  proof -
    have "(2 * x * y * s)\<^sup>2 = 4 * (x * x) * (y * y) * s\<^sup>2"
      by (simp add: power2_eq_square)
    also have "\<dots> \<le> 4 * (x * x) * (y * y) * (A * B)"
      using assms(1) by (intro mult_left_mono) auto
    also have "\<dots> \<le> (x * x * B + A * y * y)\<^sup>2"
    proof -
      have "0 \<le> (x * x * B - A * y * y)\<^sup>2" by simp
      then show ?thesis by (simp add: power2_eq_square algebra_simps)
    qed
    finally show ?thesis .
  qed
  have nn: "0 \<le> x * x * B + A * y * y"
  proof -
    have "0 \<le> (x * x) * B" and "0 \<le> A * (y * y)"
      using assms(2,3) by (simp_all add: zero_le_mult_iff)
    then show ?thesis by (simp add: mult.assoc)
  qed
  have "2 * x * y * s \<le> x * x * B + A * y * y"
    using sq nn by (meson abs_le_square_iff abs_le_D1 abs_of_nonneg order_trans power2_le_imp_le)
  then show ?thesis
    using assms(1) by (simp add: power2_eq_square algebra_simps)
qed

lemma cauchy_schwarz_list:
  "length a = length b \<Longrightarrow> (dot a b)\<^sup>2 \<le> (\<Sum>x\<leftarrow>a. x * x) * (\<Sum>y\<leftarrow>b. y * y)"
proof (induction a b rule: list_induct2)
  case Nil
  then show ?case by (simp add: dot_def)
next
  case (Cons x xs y ys)
  have "(x * y + dot xs ys)\<^sup>2 \<le> (x * x + (\<Sum>x\<leftarrow>xs. x * x)) * (y * y + (\<Sum>y\<leftarrow>ys. y * y))"
    by (rule cs_step [OF Cons.IH sum_squares_nonneg sum_squares_nonneg])
  then show ?case by (simp add: dot_def)
qed

lemma abs_dot_le_norms:
  assumes "length a = length b"
  shows "\<bar>dot a b\<bar> \<le> linalg_norm a * linalg_norm b"
proof -
  have "\<bar>dot a b\<bar> = sqrt ((dot a b)\<^sup>2)" by simp
  also have "\<dots> \<le> sqrt ((\<Sum>x\<leftarrow>a. x * x) * (\<Sum>y\<leftarrow>b. y * y))"
    using cauchy_schwarz_list [OF assms] by (rule real_sqrt_le_mono)
  also have "\<dots> = linalg_norm a * linalg_norm b"
    by (simp add: linalg_norm_def real_sqrt_mult)
  finally show ?thesis .
qed

lemma linalg_norm_nonneg: "0 \<le> linalg_norm a"
  by (simp add: linalg_norm_def sum_squares_nonneg)

text \<open>
  Claim C4, as amended. On vectors of different length the similarity raises (the error of
  \<^verbatim>\<open>np.dot\<close>). On vectors of equal length and non-zero norm it returns the dot product
  divided by the product of the norms, a number between \<open>-1\<close> and \<open>1\<close> (in exact real
  arithmetic). On vectors of equal length of which one has norm zero it raises nothing and
  returns NaN.
\<close>

theorem cosine_similarity_contract:
  "(length a \<noteq> length b \<longrightarrow> cosine_similarity a b = Inl (ShapesNotAligned (length a) (length b))) \<and>
   (length a = length b \<and> linalg_norm a \<noteq> 0 \<and> linalg_norm b \<noteq> 0 \<longrightarrow>
      cosine_similarity a b = Inr (Val (dot a b / (linalg_norm a * linalg_norm b))) \<and>
      - 1 \<le> dot a b / (linalg_norm a * linalg_norm b) \<and>
      dot a b / (linalg_norm a * linalg_norm b) \<le> 1) \<and>
   (length a = length b \<and> (linalg_norm a = 0 \<or> linalg_norm b = 0) \<longrightarrow>
      cosine_similarity a b = Inr NaN)"
proof (intro conjI impI)
  assume "length a \<noteq> length b"
  then show "cosine_similarity a b = Inl (ShapesNotAligned (length a) (length b))"
    by (simp add: cosine_similarity_def)
next
  assume h: "length a = length b \<and> linalg_norm a \<noteq> 0 \<and> linalg_norm b \<noteq> 0"
  then show "cosine_similarity a b = Inr (Val (dot a b / (linalg_norm a * linalg_norm b)))"
    by (simp add: cosine_similarity_def Let_def)
  have pos: "0 < linalg_norm a * linalg_norm b"
    using h linalg_norm_nonneg [of a] linalg_norm_nonneg [of b] by (simp add: less_le)
  have "\<bar>dot a b\<bar> \<le> linalg_norm a * linalg_norm b"
    using h by (simp add: abs_dot_le_norms)
  then have "- (linalg_norm a * linalg_norm b) \<le> dot a b"
    and "dot a b \<le> linalg_norm a * linalg_norm b"
    by (simp_all add: abs_le_iff)
  then show "- 1 \<le> dot a b / (linalg_norm a * linalg_norm b)"
    and "dot a b / (linalg_norm a * linalg_norm b) \<le> 1"
    using pos by (simp_all add: pos_le_divide_eq pos_divide_le_eq)
next
  assume "length a = length b \<and> (linalg_norm a = 0 \<or> linalg_norm b = 0)"
  then show "cosine_similarity a b = Inr NaN"
    by (auto simp: cosine_similarity_def Let_def)
qed

text \<open>
  The claim as first stated asks for an error on a vector of norm zero; the function returns
  NaN there.
\<close>

theorem cosine_similarity_zero_norm_counterexample:
  "cosine_similarity [0, 0] [1, 0] = Inr NaN"
  by (simp add: cosine_similarity_def linalg_norm_def)

theorem cosine_similarity_contract_witness:
  "cosine_similarity [1] [1, 2] = Inl (ShapesNotAligned 1 2) \<and>
   cosine_similarity [3, 4] [3, 4] = Inr (Val 1) \<and>
   cosine_similarity [0] [5] = Inr NaN"
proof -
  have n: "linalg_norm [3, 4] = 5"
  proof -
    have "linalg_norm [3, 4] = sqrt (5\<^sup>2)" unfolding linalg_norm_def by simp
    then show ?thesis by simp
  qed
  have z: "linalg_norm [0] = 0" by (simp add: linalg_norm_def)
  have d: "dot [3, 4] [3, 4] = 25" by (simp add: dot_def)
  from cosine_similarity_contract [of "[1]" "[1, 2]"]
  have 1: "cosine_similarity [1] [1, 2] = Inl (ShapesNotAligned 1 2)" by simp
  from cosine_similarity_contract [of "[3, 4]" "[3, 4]"] n d
  have 2: "cosine_similarity [3, 4] [3, 4] = Inr (Val 1)" by simp
  from cosine_similarity_contract [of "[0]" "[5]"] z
  have 3: "cosine_similarity [0] [5] = Inr NaN" by simp
  from 1 2 3 show ?thesis by simp
qed

subsection \<open>The keys of the centroids of a chunk\<close>

lemma map_of_None_keys: "map_of d k = None \<longleftrightarrow> k \<notin> set (map fst d)"
  by (simp add: map_of_eq_None_iff)

lemma append_embedding_keys:
  "map fst (append_embedding d seg) =
     (if speakerId seg \<in> set (map fst d) then map fst d else map fst d @ [speakerId seg])"
proof (cases "map_of d (speakerId seg)")
  case None
  then have "speakerId seg \<notin> set (map fst d)"
    by (simp add: map_of_None_keys)
  with None show ?thesis
    by (simp add: append_embedding_def AList.update_conv' AList.update_keys)
next
  case (Some es)
  then have "speakerId seg \<in> set (map fst d)"
    using map_of_None_keys [of d "speakerId seg"] by simp
  with Some show ?thesis
    by (simp add: append_embedding_def AList.update_keys)
qed

lemma foldl_append_embedding_keys:
  "distinct (map fst d) \<Longrightarrow>
   distinct (map fst (foldl append_embedding d segs)) \<and>
   set (map fst (foldl append_embedding d segs)) = set (map fst d) \<union> speakerId ` set segs"
proof (induction segs arbitrary: d)
  case Nil
  then show ?case by simp
next
  case (Cons s segs)
  have "distinct (map fst (append_embedding d s))"
    using Cons.prems by (simp add: append_embedding_keys)
  from Cons.IH [OF this] show ?case
    by (auto simp: append_embedding_keys split: if_splits)
qed

lemma centroids_loop_keys:
  assumes "centroids_loop se acc = Inr cc"
    and "distinct (map fst se)"
    and "set (map fst se) \<inter> set (map fst acc) = {}"
  shows "map fst cc = map fst acc @ map fst se"
  using assms
proof (induction se arbitrary: acc)
  case Nil
  then show ?case by simp
next
  case (Cons p se)
  obtain sid es where p: "p = (sid, es)" by (cases p)
  from Cons.prems(1) p obtain m where
    rest: "centroids_loop se (AList.update sid m acc) = Inr cc"
    by (auto split: sum.splits)
  have keys: "map fst (AList.update sid m acc) = map fst acc @ [sid]"
    using Cons.prems(3) p by (auto simp: AList.update_keys)
  have "set (map fst se) \<inter> set (map fst (AList.update sid m acc)) = {}"
    using Cons.prems(2,3) p by (auto simp: keys)
  from Cons.IH [OF rest _ this] Cons.prems(2) show ?case
    by (simp add: keys p)
qed

lemma get_speaker_centroids_keys:
  assumes "get_speaker_centroids segs = Inr cc"
  shows "distinct (map fst cc)" and "set (map fst cc) = speakerId ` set segs"
proof -
  have d: "distinct (map fst (foldl append_embedding [] segs))"
    and s: "set (map fst (foldl append_embedding [] segs)) = speakerId ` set segs"
    using foldl_append_embedding_keys [of "[]" segs] by simp_all
  have "map fst cc = map fst (foldl append_embedding [] segs)"
    using centroids_loop_keys [OF assms [unfolded get_speaker_centroids_def] d] by simp
  with d s show "distinct (map fst cc)" and "set (map fst cc) = speakerId ` set segs"
    by simp_all
qed

lemma np_mean_axis0_error: "np_mean_axis0 es = Inl e \<Longrightarrow> e = InhomogeneousShape"
  by (auto simp: np_mean_axis0_def split: list.splits if_splits)

lemma centroids_loop_error: "centroids_loop se acc = Inl e \<Longrightarrow> e = InhomogeneousShape"
proof (induction se arbitrary: acc)
  case Nil
  then show ?case by simp
next
  case (Cons p se)
  obtain sid es where p: "p = (sid, es)" by (cases p)
  show ?case
  proof (cases "np_mean_axis0 es")
    case (Inl e')
    with Cons.prems p show ?thesis by (auto dest: np_mean_axis0_error)
  next
    case (Inr m)
    with Cons.prems p Cons.IH show ?thesis by auto
  qed
qed

lemma get_speaker_centroids_error:
  "get_speaker_centroids segs = Inl e \<Longrightarrow> e = InhomogeneousShape"
  unfolding get_speaker_centroids_def by (rule centroids_loop_error)

text \<open>The mean is taken of non-empty lists of embeddings only.\<close>

lemma update_entries: "p \<in> set (AList.update k v al) \<Longrightarrow> p = (k, v) \<or> p \<in> set al"
  by (induction al) (auto split: if_splits)

lemma append_embedding_nonempty:
  assumes "\<forall>(sid, es) \<in> set d. es \<noteq> []"
  shows "\<forall>(sid, es) \<in> set (append_embedding d seg). es \<noteq> []"
proof (cases "map_of d (speakerId seg)")
  case None
  then have "append_embedding d seg =
      AList.update (speakerId seg) [embedding seg] (AList.update (speakerId seg) [] d)"
    by (simp add: append_embedding_def AList.update_conv')
  with assms show ?thesis
    by (auto dest!: update_entries)
next
  case (Some es)
  then have "append_embedding d seg = AList.update (speakerId seg) (es @ [embedding seg]) d"
    by (simp add: append_embedding_def)
  with assms show ?thesis
    by (auto dest!: update_entries)
qed

lemma foldl_append_embedding_nonempty:
  "\<forall>(sid, es) \<in> set d. es \<noteq> [] \<Longrightarrow>
   \<forall>(sid, es) \<in> set (foldl append_embedding d segs). es \<noteq> []"
proof (induction segs arbitrary: d)
  case Nil
  then show ?case by simp
next
  case (Cons s segs)
  from Cons.IH [OF append_embedding_nonempty [OF Cons.prems]] show ?case by simp
qed

subsection \<open>Overlap deduplication\<close>

lemma process_segments_result:
  assumes "process_segments offs cs i off sm segs acc = Inr r"
  shows "r = acc @ map (\<lambda>s. relabelled (the (map_of sm (speakerId s))) (shifted off s))
                 (filter (\<lambda>s. \<not> (0 < i \<and> startTimeSeconds s + off < offs ! (i - 1) + cs)) segs)"
  using assms
proof (induction segs arbitrary: acc)
  case Nil
  then show ?case by simp
next
  case (Cons s segs)
  show ?case
  proof (cases "0 < i \<and> startTimeSeconds s + off < offs ! (i - 1) + cs")
    case True
    with Cons.prems have "process_segments offs cs i off sm segs acc = Inr r"
      by (auto simp: in_overlap_def Let_def split: if_splits)
    from Cons.IH [OF this] True show ?thesis by simp
  next
    case False
    with Cons.prems obtain g where g: "map_of sm (speakerId s) = Some g"
      and rest: "process_segments offs cs i off sm segs
                   (acc @ [\<lparr>startTimeSeconds = startTimeSeconds s + off,
                            endTimeSeconds = endTimeSeconds s + off, speakerId = g,
                            qualityScore = qualityScore s, embedding = embedding s\<rparr>]) = Inr r"
      by (auto simp: in_overlap_def Let_def split: if_splits option.splits)
    have "relabelled g (shifted off s) =
          \<lparr>startTimeSeconds = startTimeSeconds s + off,
           endTimeSeconds = endTimeSeconds s + off, speakerId = g,
           qualityScore = qualityScore s, embedding = embedding s\<rparr>"
      by (simp add: relabelled_def shifted_def)
    with Cons.IH [OF rest] False g show ?thesis by simp
  qed
qed

lemma unlabelled_relabelled: "unlabelled (relabelled g s) = unlabelled s"
  by (simp add: unlabelled_def relabelled_def)

lemma process_chunk_Inr:
  assumes "process_chunk offs cs i (f, off) st = Inr st'" and "segments (content f) \<noteq> []"
  shows "\<exists>cc sm g.
           get_speaker_centroids (segments (content f)) = Inr cc \<and>
           resolve_speakers i cc (global_centroids st) = Inr (sm, g) \<and>
           process_segments offs cs i off sm (segments (content f)) (all_segments st) =
             Inr (all_segments st') \<and>
           global_centroids st' = g \<and>
           total_duration st' = max (total_duration st) (durationSeconds (content f) + off)"
  using assms
  by (auto simp: process_chunk_def Let_def split: sum.splits prod.splits)

lemma process_chunk_unlabelled:
  assumes "process_chunk offs cs i (f, off) st = Inr st'"
  shows "map unlabelled (all_segments st') =
         map unlabelled (all_segments st) @
         map (\<lambda>s. unlabelled (shifted off s))
           (filter (\<lambda>s. \<not> (0 < i \<and> startTimeSeconds s + off < offs ! (i - 1) + cs))
              (segments (content f)))"
proof (cases "segments (content f) = []")
  case True
  with assms show ?thesis by (simp add: process_chunk_def)
next
  case False
  with process_chunk_Inr [OF assms] obtain sm where
    "process_segments offs cs i off sm (segments (content f)) (all_segments st) =
       Inr (all_segments st')"
    by blast
  from process_segments_result [OF this] show ?thesis
    by (simp add: unlabelled_relabelled comp_def)
qed

lemma merge_loop_unlabelled:
  assumes "merge_loop offs cs i cfs st = Inr st'"
  shows "map unlabelled (all_segments st') =
         map unlabelled (all_segments st) @
         concat (map (\<lambda>(j, f, off).
                   map (\<lambda>s. unlabelled (shifted off s))
                     (filter (\<lambda>s. \<not> (0 < j \<and> startTimeSeconds s + off < offs ! (j - 1) + cs))
                        (segments (content f))))
                 (enumerate i cfs))"
  using assms
proof (induction cfs arbitrary: i st)
  case Nil
  then show ?case by simp
next
  case (Cons cf cfs)
  obtain f off where cf: "cf = (f, off)" by (cases cf)
  from Cons.prems cf obtain st1 where
    1: "process_chunk offs cs i (f, off) st = Inr st1"
    and 2: "merge_loop offs cs (Suc i) cfs st1 = Inr st'"
    by (auto split: sum.splits)
  from Cons.IH [OF 2] process_chunk_unlabelled [OF 1] show ?case
    by (simp add: cf)
qed

lemma map_insort_key:
  assumes "\<And>x. k' (h x) = k x"
  shows "map h (insort_key k x xs) = insort_key k' (h x) (map h xs)"
  by (induction xs) (simp_all add: assms)

lemma map_sort_key:
  assumes "\<And>x. k' (h x) = k x"
  shows "map h (sort_key k xs) = sort_key k' (map h xs)"
  by (induction xs) (simp_all add: map_insort_key [where k' = k', OF assms])

lemma startTime_unlabelled: "startTimeSeconds (unlabelled s) = startTimeSeconds s"
  by (simp add: unlabelled_def relabelled_def)

text \<open>
  Claim C1. In a merge that returns, the output, speakers left aside, is the sorted list of
  the shifted segments of all chunks from which exactly those are removed that belong to a
  chunk \<open>i > 0\<close> and start, after the shift, strictly before
  \<open>chunk_offsets[i - 1] + chunk_size\<close>: a segment that starts on the boundary stays.
  The overlap argument has no influence on the result.
\<close>

theorem overlap_dedup_rule:
  assumes "merge_chunks fs offs cs ov = Inr r"
  shows "map unlabelled (segments r) =
         sort_key startTimeSeconds
           (concat (map (\<lambda>(i, f, off).
                      map (\<lambda>s. unlabelled (shifted off s))
                        (filter (\<lambda>s. \<not> (0 < i \<and> startTimeSeconds s + off < offs ! (i - 1) + cs))
                           (segments (content f))))
                    (enumerate 0 (zip fs offs)))) \<and>
         merge_chunks fs offs cs ov' = merge_chunks fs offs cs ov"
proof -
  from assms obtain st where
    st: "merge_loop offs cs 0 (zip fs offs) initial_state = Inr st"
    and r: "segments r = sort_key startTimeSeconds (all_segments st)"
    by (auto simp: merge_chunks_def split: sum.splits)
  have "map unlabelled (segments r) = sort_key startTimeSeconds (map unlabelled (all_segments st))"
    unfolding r by (rule map_sort_key) (rule startTime_unlabelled)
  moreover have "merge_chunks fs offs cs ov' = merge_chunks fs offs cs ov"
    by (simp add: merge_chunks_def)
  ultimately show ?thesis
    using merge_loop_unlabelled [OF st] by (simp add: initial_state_def)
qed

theorem overlap_dedup_rule_witness:
  "merge_chunks [example_first, example_empty, example_later] [0, 10, 20] 10 3 =
     Inr example_merged \<and>
   (map unlabelled (segments example_merged) =
      sort_key startTimeSeconds
        (concat (map (\<lambda>(i, f, off).
                   map (\<lambda>s. unlabelled (shifted off s))
                     (filter (\<lambda>s. \<not> (0 < i \<and>
                                 startTimeSeconds s + off < [0, 10, 20] ! (i - 1) + 10))
                        (segments (content f))))
                 (enumerate 0 (zip [example_first, example_empty, example_later]
                                 [0, 10, 20])))) \<and>
    merge_chunks [example_first, example_empty, example_later] [0, 10, 20] 10 30 =
      merge_chunks [example_first, example_empty, example_later] [0, 10, 20] 10 3)"
  by (rule conjI [OF merge_chunks_example
        overlap_dedup_rule [OF merge_chunks_example, where ov' = 30]])

subsection \<open>The chunk at index 0\<close>

lemma identity_map_of:
  "k \<in> set (map fst cc) \<Longrightarrow> map_of (map (\<lambda>(sid, c). (sid, sid)) cc) k = Some k"
  by (induction cc) auto

lemma process_segments_first:
  assumes "\<forall>s \<in> set segs. map_of sm (speakerId s) = Some (speakerId s)"
  shows "process_segments offs cs 0 off sm segs acc = Inr (acc @ map (shifted off) segs)"
  using assms
proof (induction segs arbitrary: acc)
  case Nil
  then show ?case by simp
next
  case (Cons s segs)
  have "shifted off s =
        \<lparr>startTimeSeconds = startTimeSeconds s + off, endTimeSeconds = endTimeSeconds s + off,
         speakerId = speakerId s, qualityScore = qualityScore s, embedding = embedding s\<rparr>"
    by (simp add: shifted_def)
  with Cons show ?case
    by (simp add: in_overlap_def Let_def)
qed

lemma first_chunk_step:
  assumes "segments (content f) \<noteq> []"
  shows "process_chunk offs cs 0 (f, off) st =
           (case get_speaker_centroids (segments (content f)) of
              Inl e \<Rightarrow> Inl e
            | Inr cc \<Rightarrow>
                Inr \<lparr>all_segments = all_segments st @ map (shifted off) (segments (content f)),
                     global_centroids = cc,
                     total_duration =
                       max (total_duration st) (durationSeconds (content f) + off)\<rparr>)"
proof (cases "get_speaker_centroids (segments (content f))")
  case (Inl e)
  with assms show ?thesis by (simp add: process_chunk_def)
next
  case (Inr cc)
  have keys: "set (map fst cc) = speakerId ` set (segments (content f))"
    using Inr by (rule get_speaker_centroids_keys)
  have "\<forall>s \<in> set (segments (content f)).
          map_of (map (\<lambda>(sid, c). (sid, sid)) cc) (speakerId s) = Some (speakerId s)"
    using keys by (auto intro!: identity_map_of)
  from process_segments_first [OF this] Inr assms show ?thesis
    by (simp add: process_chunk_def resolve_speakers_def Let_def)
qed

text \<open>
  Claim C5, as amended. When the chunk at index 0 has segments, its step raises only if the
  centroids cannot be computed, and otherwise every segment is emitted, shifted, under its
  own local speaker ID, and the chunk's centroids become the global centroids: the speaker
  map is the identity on the chunk's speakers, and neither a similarity nor the threshold is
  computed or read.
\<close>

theorem first_chunk_identity:
  assumes "segments (content f) \<noteq> []"
  shows "process_chunk offs cs 0 (f, off) st =
           (case get_speaker_centroids (segments (content f)) of
              Inl e \<Rightarrow> Inl e
            | Inr cc \<Rightarrow>
                Inr \<lparr>all_segments = all_segments st @ map (shifted off) (segments (content f)),
                     global_centroids = cc,
                     total_duration =
                       max (total_duration st) (durationSeconds (content f) + off)\<rparr>) \<and>
         (\<forall>cc. get_speaker_centroids (segments (content f)) = Inr cc \<longrightarrow>
            resolve_speakers 0 cc (global_centroids st) =
              Inr (map (\<lambda>(sid, c). (sid, sid)) cc, cc) \<and>
            set (map fst cc) = speakerId ` set (segments (content f)))"
proof (intro conjI allI impI)
  show "process_chunk offs cs 0 (f, off) st =
           (case get_speaker_centroids (segments (content f)) of
              Inl e \<Rightarrow> Inl e
            | Inr cc \<Rightarrow>
                Inr \<lparr>all_segments = all_segments st @ map (shifted off) (segments (content f)),
                     global_centroids = cc,
                     total_duration =
                       max (total_duration st) (durationSeconds (content f) + off)\<rparr>)"
    using assms by (rule first_chunk_step)
next
  fix cc
  show "resolve_speakers 0 cc (global_centroids st) = Inr (map (\<lambda>(sid, c). (sid, sid)) cc, cc)"
    by (simp add: resolve_speakers_def)
next
  fix cc
  assume "get_speaker_centroids (segments (content f)) = Inr cc"
  then show "set (map fst cc) = speakerId ` set (segments (content f))"
    by (rule get_speaker_centroids_keys)
qed

theorem first_chunk_identity_witness:
  "segments (content example_first) \<noteq> [] \<and>
   process_chunk [0, 10, 20] 10 0 (example_first, 0) initial_state = Inr example_state1 \<and>
   resolve_speakers 0 [(''1'', [1, 0])] [] = Inr ([(''1'', ''1'')], [(''1'', [1, 0])]) \<and>
   set (map fst [(''1'', [1 :: real, 0])]) = speakerId ` set (segments (content example_first))"
proof -
  have ne: "segments (content example_first) \<noteq> []"
    by (simp add: example_first_def)
  have c: "get_speaker_centroids (segments (content example_first)) = Inr [(''1'', [1, 0])]"
    by (simp add: example_first_def centroids_eval)
  note t = first_chunk_identity [OF ne, where offs = "[0, 10, 20]" and cs = 10 and off = 0
      and st = initial_state]
  from t c have 1:
    "process_chunk [0, 10, 20] 10 0 (example_first, 0) initial_state = Inr example_state1"
    by (simp add: example_state1_def initial_state_def example_first_def shifted_def)
  note t [THEN conjunct2, THEN spec, THEN mp, OF c]
  then have 2:
    "resolve_speakers 0 [(''1'', [1, 0])] [] = Inr ([(''1'', ''1'')], [(''1'', [1, 0])])"
    and 3: "set (map fst [(''1'', [1 :: real, 0])]) =
            speakerId ` set (segments (content example_first))"
    by (simp_all add: initial_state_def)
  from ne 1 2 3 show ?thesis by blast
qed

text \<open>
  The claim as first stated speaks of the first chunk that has segments. When the chunk at
  index 0 is empty and the next one has the single speaker \<^verbatim>\<open>A\<close>, that speaker goes through
  the mapper and comes out as the global speaker \<^verbatim>\<open>1\<close>.
\<close>

theorem first_nonempty_chunk_counterexample:
  "merge_chunks [example_empty, example_named] [0, 10] 10 3 =
   Inr \<lparr>segments =
          [\<lparr>startTimeSeconds = 10, endTimeSeconds = 15, speakerId = ''1'',
            qualityScore = 1, embedding = [1, 0]\<rparr>],
        durationSeconds = 20,
        audioFile = ''merged'', config_merged = True, config_chunks = 2,
        speakerCount = 1, timestamp = 6\<rparr>"
proof -
  have "process_chunk [0, 10] 10 (Suc 0) (example_named, 10) initial_state =
        Inr \<lparr>all_segments =
               [\<lparr>startTimeSeconds = 10, endTimeSeconds = 15, speakerId = ''1'',
                 qualityScore = 1, embedding = [1, 0]\<rparr>],
             global_centroids = [(''1'', [1, 0])],
             total_duration = 20\<rparr>"
    by (simp add: merge_eval example_named_def)
  then have "merge_loop [0, 10] 10 0 [(example_empty, 0), (example_named, 10)] initial_state =
        Inr \<lparr>all_segments =
               [\<lparr>startTimeSeconds = 10, endTimeSeconds = 15, speakerId = ''1'',
                 qualityScore = 1, embedding = [1, 0]\<rparr>],
             global_centroids = [(''1'', [1, 0])],
             total_duration = 20\<rparr>"
    by (simp add: step_empty)
  then show ?thesis
    by (simp add: merge_chunks_def example_empty_def del: merge_loop.simps)
qed

subsection \<open>The run as a whole\<close>

lemma process_chunk_content:
  "content f = content f' \<Longrightarrow>
   process_chunk offs cs i (f, off) st = process_chunk offs cs i (f', off) st"
  by (simp add: process_chunk_def)

lemma merge_loop_content:
  "map (\<lambda>(f, off). (content f, off)) xs = map (\<lambda>(f, off). (content f, off)) ys \<Longrightarrow>
   merge_loop offs cs i xs st = merge_loop offs cs i ys st"
proof (induction xs arbitrary: ys i st)
  case Nil
  then show ?case by simp
next
  case (Cons x xs)
  then obtain y ys' where ys: "ys = y # ys'" by (cases ys) auto
  obtain f off where x: "x = (f, off)" by (cases x)
  obtain f' off' where y: "y = (f', off')" by (cases y)
  from Cons.prems ys x y have c: "content f = content f'" and o: "off' = off"
    and rest: "map (\<lambda>(f, off). (content f, off)) xs = map (\<lambda>(f, off). (content f, off)) ys'"
    by auto
  have "process_chunk offs cs i (f, off) st = process_chunk offs cs i (f', off) st"
    using c by (rule process_chunk_content)
  then show ?case
    using Cons.IH [OF rest] by (simp add: ys x y o split: sum.splits)
qed

lemma zip_content:
  "map (\<lambda>(f, off). (content f, off)) (zip fs offs) = zip (map content fs) offs"
  by (induction fs arbitrary: offs) (auto simp: zip_Cons1 split: list.splits)

text \<open>
  Claim C9. Two runs on chunk files with the same contents, the same offsets and the same
  configuration agree on the segment sequence (with its speakers), the speaker count and the
  duration, or raise the same error; the modification times of the files, which only the
  timestamp field reads, may differ between the runs.
\<close>

theorem merge_chunks_deterministic:
  assumes "map content fs = map content fs'"
  shows "map_sum id (\<lambda>r. (segments r, speakerCount r, durationSeconds r))
           (merge_chunks fs offs cs ov) =
         map_sum id (\<lambda>r. (segments r, speakerCount r, durationSeconds r))
           (merge_chunks fs' offs cs ov)"
proof -
  have "merge_loop offs cs 0 (zip fs offs) initial_state =
        merge_loop offs cs 0 (zip fs' offs) initial_state"
    by (rule merge_loop_content) (simp add: zip_content assms)
  then show ?thesis
    by (simp add: merge_chunks_def split: sum.splits)
qed

theorem merge_chunks_deterministic_witness:
  "map content [example_first, example_empty, example_later] =
     map content [example_first\<lparr>st_mtime := 100\<rparr>, example_empty, example_later] \<and>
   map_sum id (\<lambda>r. (segments r, speakerCount r, durationSeconds r))
     (merge_chunks [example_first, example_empty, example_later] [0, 10, 20] 10 3) =
   map_sum id (\<lambda>r. (segments r, speakerCount r, durationSeconds r))
     (merge_chunks [example_first\<lparr>st_mtime := 100\<rparr>, example_empty, example_later]
        [0, 10, 20] 10 3)"
proof -
  have c: "map content [example_first, example_empty, example_later] =
     map content [example_first\<lparr>st_mtime := 100\<rparr>, example_empty, example_later]"
    by simp
  from c merge_chunks_deterministic [OF c] show ?thesis by (rule conjI)
qed

text \<open>
  Claim C8. A chunk without segments leaves the whole state of the loop as it is: the
  accumulated segments, the global centroids (hence the speaker count) and the total
  duration, whatever its own duration and offset are; no centroid and no mapping is
  computed, so nothing can be raised, and the loop goes on with the next chunk.
\<close>

theorem empty_chunk_skipped:
  assumes "segments (content f) = []"
  shows "process_chunk offs cs i (f, off) st = Inr st \<and>
         merge_loop offs cs i ((f, off) # rest) st = merge_loop offs cs (Suc i) rest st"
  using assms by (simp add: process_chunk_def)

theorem empty_chunk_skipped_witness:
  "segments (content example_empty) = [] \<and>
   process_chunk [0, 10, 20] 10 1 (example_empty, 10) example_state1 = Inr example_state1 \<and>
   merge_loop [0, 10, 20] 10 1 ((example_empty, 10) # [(example_later, 20)]) example_state1 =
     merge_loop [0, 10, 20] 10 (Suc 1) [(example_later, 20)] example_state1"
proof -
  have e: "segments (content example_empty) = []"
    by (simp add: example_empty_def)
  from e empty_chunk_skipped [OF e] show ?thesis by (rule conjI)
qed

text \<open>
  Claim C7. The segments of the output are the accumulated segments in a stable sort by the
  shifted start time: they are sorted by start time, they are the same segments, and those
  with the same start time stand in the order in which they were accumulated. The speaker
  count is the number of entries of the final global centroids.
\<close>

theorem merged_timeline_stable_sorted:
  assumes "merge_chunks fs offs cs ov = Inr r"
  shows "\<exists>st. merge_loop offs cs 0 (zip fs offs) initial_state = Inr st \<and>
           sorted (map startTimeSeconds (segments r)) \<and>
           mset (segments r) = mset (all_segments st) \<and>
           (\<forall>t. filter (\<lambda>s. startTimeSeconds s = t) (segments r) =
                filter (\<lambda>s. startTimeSeconds s = t) (all_segments st)) \<and>
           speakerCount r = length (global_centroids st)"
proof -
  from assms obtain st where
    st: "merge_loop offs cs 0 (zip fs offs) initial_state = Inr st"
    and r: "segments r = sort_key startTimeSeconds (all_segments st)"
    and n: "speakerCount r = length (global_centroids st)"
    by (auto simp: merge_chunks_def split: sum.splits)
  have "sorted (map startTimeSeconds (segments r))"
    by (simp add: r)
  moreover have "mset (segments r) = mset (all_segments st)"
    by (simp add: r)
  moreover have "\<forall>t. filter (\<lambda>s. startTimeSeconds s = t) (segments r) =
                filter (\<lambda>s. startTimeSeconds s = t) (all_segments st)"
    by (simp add: r sort_key_stable)
  ultimately show ?thesis using st n by blast
qed

theorem merged_timeline_stable_sorted_witness:
  "merge_chunks [example_first, example_empty, example_later] [0, 10, 20] 10 3 =
     Inr example_merged \<and>
   (\<exists>st. merge_loop [0, 10, 20] 10 0
           (zip [example_first, example_empty, example_later] [0, 10, 20]) initial_state =
           Inr st \<and>
         sorted (map startTimeSeconds (segments example_merged)) \<and>
         mset (segments example_merged) = mset (all_segments st) \<and>
         (\<forall>t. filter (\<lambda>s. startTimeSeconds s = t) (segments example_merged) =
              filter (\<lambda>s. startTimeSeconds s = t) (all_segments st)) \<and>
         speakerCount example_merged = length (global_centroids st))"
  by (rule conjI [OF merge_chunks_example
        merged_timeline_stable_sorted [OF merge_chunks_example]])

subsection \<open>The mapper: matching\<close>

lemma best_match_loop_no_better:
  assumes "best_match_loop c ex (bm, bs) = Inr r"
    and "\<forall>j<length ex. \<forall>u. cosine_similarity c (snd (ex ! j)) = Inr (Val u) \<longrightarrow> u \<le> bs"
  shows "r = (bm, bs)"
  using assms
proof (induction ex)
  case Nil
  then show ?case by simp
next
  case (Cons p ex)
  obtain g e where p: "p = (g, e)" by (cases p)
  have tail: "\<forall>j<length ex. \<forall>u. cosine_similarity c (snd (ex ! j)) = Inr (Val u) \<longrightarrow> u \<le> bs"
    using Cons.prems(2) by (metis Suc_less_eq length_Cons nth_Cons_Suc)
  have head: "\<forall>u. cosine_similarity c e = Inr (Val u) \<longrightarrow> u \<le> bs"
    using Cons.prems(2) p by (metis length_Cons nth_Cons_0 snd_conv zero_less_Suc)
  from Cons.prems(1) p head have "best_match_loop c ex (bm, bs) = Inr r"
    by (auto split: sum.splits npfloat.splits if_splits)
  from Cons.IH [OF this tail] show ?case .
qed

lemma best_match_loop_first_max:
  assumes "best_match_loop c ex (bm, bs) = Inr r"
    and "k < length ex"
    and "cosine_similarity c (snd (ex ! k)) = Inr (Val v)"
    and "bs < v"
    and "\<forall>j<length ex. \<forall>u. cosine_similarity c (snd (ex ! j)) = Inr (Val u) \<longrightarrow> u \<le> v"
    and "\<forall>j<k. \<forall>u. cosine_similarity c (snd (ex ! j)) = Inr (Val u) \<longrightarrow> u < v"
  shows "r = (Some (fst (ex ! k)), v)"
  using assms
proof (induction ex arbitrary: bm bs k)
  case Nil
  then show ?case by simp
next
  case (Cons p ex)
  obtain g e where p: "p = (g, e)" by (cases p)
  have tail: "\<forall>j<length ex. \<forall>u. cosine_similarity c (snd (ex ! j)) = Inr (Val u) \<longrightarrow> u \<le> v"
    using Cons.prems(5) by (metis Suc_less_eq length_Cons nth_Cons_Suc)
  show ?case
  proof (cases k)
    case 0
    with Cons.prems(3) p have sim: "cosine_similarity c e = Inr (Val v)" by simp
    with Cons.prems(1,4) p have "best_match_loop c ex (Some g, v) = Inr r" by simp
    from best_match_loop_no_better [OF this tail] 0 p show ?thesis by simp
  next
    case (Suc k')
    have k': "k' < length ex" using Cons.prems(2) Suc by simp
    have simk: "cosine_similarity c (snd (ex ! k')) = Inr (Val v)"
      using Cons.prems(3) Suc by simp
    have before: "\<forall>j<k'. \<forall>u. cosine_similarity c (snd (ex ! j)) = Inr (Val u) \<longrightarrow> u < v"
      using Cons.prems(6) Suc by (metis Suc_less_eq nth_Cons_Suc)
    have head: "\<forall>u. cosine_similarity c e = Inr (Val u) \<longrightarrow> u < v"
      using Cons.prems(6) Suc p by (metis nth_Cons_0 snd_conv zero_less_Suc)
    from Cons.prems(1) p consider
      (keep) "best_match_loop c ex (bm, bs) = Inr r"
      | (take) u where "cosine_similarity c e = Inr (Val u)" and "bs < u"
        and "best_match_loop c ex (Some g, u) = Inr r"
      by (auto split: sum.splits npfloat.splits if_splits)
    then show ?thesis
    proof cases
      case keep
      from Cons.IH [OF keep k' simk Cons.prems(4) tail before] Suc show ?thesis by simp
    next
      case take
      with head have "u < v" by simp
      from Cons.IH [OF take(3) k' simk this tail before] Suc show ?thesis by simp
    qed
  qed
qed

lemma map_speakers_loop_other:
  assumes "map_speakers_loop new ex thr (m, n) = Inr (m', n')"
    and "sid \<notin> set (map fst new)"
  shows "map_of m' sid = map_of m sid"
  using assms
proof (induction new arbitrary: m n)
  case Nil
  then show ?case by simp
next
  case (Cons p new)
  obtain s c where p: "p = (s, c)" by (cases p)
  from Cons.prems(2) p have ne: "s \<noteq> sid" and rest: "sid \<notin> set (map fst new)" by auto
  from Cons.prems(1) p obtain m1 n1 v where
    "map_speakers_loop new ex thr (m1, n1) = Inr (m', n')" and "m1 = AList.update s v m"
    by (auto split: sum.splits prod.splits if_splits)
  with Cons.IH [OF _ rest] ne show ?case
    by (simp add: AList.update_conv')
qed

lemma map_speakers_loop_append:
  "map_speakers_loop (xs @ ys) ex thr st =
     (case map_speakers_loop xs ex thr st of
        Inl e \<Rightarrow> Inl e
      | Inr st' \<Rightarrow> map_speakers_loop ys ex thr st')"
proof (induction xs arbitrary: st)
  case Nil
  show ?case by (cases st) simp
next
  case (Cons p xs)
  obtain s c where p: "p = (s, c)" by (cases p)
  obtain m n where st: "st = (m, n)" by (cases st)
  show ?case
    by (simp add: p st Cons.IH split: sum.splits prod.splits)
qed

lemma ints_of_parse:
  "ints_of ks = Inr ns \<Longrightarrow> map py_int ks = map Some ns"
proof (induction ks arbitrary: ns)
  case Nil
  then show ?case by simp
next
  case (Cons k ks)
  then show ?case by (auto split: option.splits sum.splits)
qed

lemma initial_next_id_keys:
  assumes "initial_next_id ex = Inr n" and "g \<in> set (map fst ex)"
  shows "\<exists>m. py_int g = Some m \<and> m < n"
proof -
  from assms(2) have ne: "ex \<noteq> []" by auto
  with assms(1) obtain ns where ns: "ints_of (map fst ex) = Inr ns"
    and n: "n = fold max (tl ns) (hd ns) + 1"
    by (auto simp: initial_next_id_def split: sum.splits)
  have parse: "map py_int (map fst ex) = map Some ns"
    using ns by (rule ints_of_parse)
  then have "length ns = length ex"
    by (metis length_map)
  with ne obtain x xs where xs: "ns = x # xs" by (cases ns) auto
  have "py_int g \<in> set (map py_int (map fst ex))"
    using assms(2) by auto
  then obtain m where m: "py_int g = Some m" "m \<in> set ns"
    unfolding parse by auto
  have "fold max (tl ns) (hd ns) = Max (set ns)"
    unfolding xs by (simp only: Max.set_eq_fold list.sel)
  moreover have "m \<le> Max (set ns)"
    using m(2) by simp
  ultimately have "m < n"
    using n by simp
  with m show ?thesis by blast
qed

lemma py_int_empty: "py_int [] = None"
  by (simp add: py_int_def strip_def)

lemma map_speakers_Inr:
  assumes "map_speakers new ex thr = Inr sm"
  shows "\<exists>n nf. initial_next_id ex = Inr n \<and>
           map_speakers_loop new ex thr ([], n) = Inr (sm, nf)"
  using assms by (auto simp: map_speakers_def split: sum.splits prod.splits)

text \<open>
  Claim C2. When the mapper returns, a local speaker whose centroid has, against the global
  centroid at position \<open>k\<close> of the registry, a similarity \<open>v\<close> above the threshold that no
  other global centroid exceeds and no earlier one reaches, is mapped to the global ID at
  position \<open>k\<close>: the highest similarity wins, and among equal ones the first in the order
  of the registry. Every chunk after index 0 calls the mapper with the threshold 0.85.
\<close>

theorem best_match_assigned:
  assumes "map_speakers new ex thr = Inr sm"
    and "distinct (map fst new)"
    and "(sid, c) \<in> set new"
    and "k < length ex"
    and "cosine_similarity c (snd (ex ! k)) = Inr (Val v)"
    and "thr < v"
    and "\<forall>j<length ex. \<forall>u. cosine_similarity c (snd (ex ! j)) = Inr (Val u) \<longrightarrow> u \<le> v"
    and "\<forall>j<k. \<forall>u. cosine_similarity c (snd (ex ! j)) = Inr (Val u) \<longrightarrow> u < v"
  shows "map_of sm sid = Some (fst (ex ! k)) \<and>
         (\<forall>i cc gc sm' g'. resolve_speakers (Suc i) cc gc = Inr (sm', g') \<longrightarrow>
            map_speakers cc gc (85 / 100) = Inr sm')"
proof
  from map_speakers_Inr [OF assms(1)] obtain n nf where
    n: "initial_next_id ex = Inr n"
    and loop: "map_speakers_loop new ex thr ([], n) = Inr (sm, nf)"
    by blast
  from assms(3) obtain pre post where new: "new = pre @ (sid, c) # post"
    by (auto dest: split_list)
  with assms(2) have post: "sid \<notin> set (map fst post)" by auto
  from loop obtain m1 n1 where
    rest: "map_speakers_loop ((sid, c) # post) ex thr (m1, n1) = Inr (sm, nf)"
    unfolding new map_speakers_loop_append by (auto split: sum.splits)
  then obtain r where r: "best_match_loop c ex (None, thr) = Inr r"
    by (auto split: sum.splits)
  have r_eq: "r = (Some (fst (ex ! k)), v)"
    using r assms(4-8) by (rule best_match_loop_first_max)
  have "fst (ex ! k) \<in> set (map fst ex)"
    using assms(4) by simp
  from initial_next_id_keys [OF n this] have "fst (ex ! k) \<noteq> []"
    using py_int_empty by auto
  then have "truthy (Some (fst (ex ! k)))"
    by (simp add: truthy_def)
  with rest r r_eq have
    "map_speakers_loop post ex thr (AList.update sid (fst (ex ! k)) m1, n1) = Inr (sm, nf)"
    by simp
  from map_speakers_loop_other [OF this post] show "map_of sm sid = Some (fst (ex ! k))"
    by (simp add: AList.update_conv')
next
  show "\<forall>i cc gc sm' g'. resolve_speakers (Suc i) cc gc = Inr (sm', g') \<longrightarrow>
          map_speakers cc gc (85 / 100) = Inr sm'"
    by (auto simp: resolve_speakers_def default_threshold_def split: sum.splits)
qed

theorem best_match_assigned_witness:
  "map_speakers [(''9'', [2, 0])] [(''4'', [0, 1]), (''1'', [1, 0]), (''2'', [3, 0])]
     default_threshold = Inr [(''9'', ''1'')] \<and>
   map_of [(''9'', ''1'')] ''9'' =
     Some (fst ([(''4'', [0, 1 :: real]), (''1'', [1, 0]), (''2'', [3, 0])] ! 1)) \<and>
   resolve_speakers (Suc 1) [(''1'', [0, 1]), (''2'', [2, 0])] [(''1'', [1, 0])] =
     Inr ([(''1'', ''2''), (''2'', ''1'')], [(''1'', [1, 0]), (''2'', [0, 1])]) \<and>
   map_speakers [(''1'', [0, 1]), (''2'', [2, 0])] [(''1'', [1, 0])] (85 / 100) =
     Inr [(''1'', ''2''), (''2'', ''1'')]"
proof -
  let ?ex = "[(''4'', [0, 1 :: real]), (''1'', [1, 0]), (''2'', [3, 0])]"
  have n3: "linalg_norm [3, 0] = 3"
  proof -
    have "linalg_norm [3, 0] = sqrt (3\<^sup>2)" unfolding linalg_norm_def by simp
    then show ?thesis by simp
  qed
  have s0: "cosine_similarity [2, 0] [0, 1] = Inr (Val 0)"
    and s1: "cosine_similarity [2, 0] [1, 0] = Inr (Val 1)"
    and s2: "cosine_similarity [2, 0] [3, 0] = Inr (Val 1)"
    using n3 by (simp_all add: cosine_similarity_def dot_def linalg_norm_def Let_def)
  have 1: "map_speakers [(''9'', [2, 0])] ?ex default_threshold = Inr [(''9'', ''1'')]"
    using s0 s1 s2
    by (simp add: map_speakers_def initial_next_id_def truthy_def default_threshold_def
        py_int_eval)
  have 2: "distinct (map fst [(''9'', [2 :: real, 0])])" by simp
  have 3: "(''9'', [2, 0]) \<in> set [(''9'', [2 :: real, 0])]" by simp
  have 4: "1 < length ?ex" by simp
  have 5: "cosine_similarity [2, 0] (snd (?ex ! 1)) = Inr (Val 1)"
    using s1 by simp
  have 6: "default_threshold < 1" by (simp add: default_threshold_def)
  have 7: "\<forall>j<length ?ex. \<forall>u. cosine_similarity [2, 0] (snd (?ex ! j)) = Inr (Val u) \<longrightarrow> u \<le> 1"
    using s0 s1 s2 by (simp add: less_Suc_eq numeral_3_eq_3 all_conj_distrib)
  have 8: "\<forall>j<1. \<forall>u. cosine_similarity [2, 0] (snd (?ex ! j)) = Inr (Val u) \<longrightarrow> u < 1"
    using s0 by simp
  note t = best_match_assigned [OF 1 2 3 4 5 6 7 8]
  have 9: "resolve_speakers (Suc 1) [(''1'', [0, 1]), (''2'', [2, 0])] [(''1'', [1, 0])] =
     Inr ([(''1'', ''2''), (''2'', ''1'')], [(''1'', [1, 0]), (''2'', [0, 1])])"
    by (simp add: resolve_speakers_def map_speakers_eval)
  note u = t [THEN conjunct2, THEN spec, THEN spec, THEN spec, THEN spec, THEN spec,
      THEN mp, OF 9]
  from 1 t [THEN conjunct1] 9 u show ?thesis by blast
qed

subsection \<open>Speaker IDs that are not numbers\<close>

lemma ints_of_bad_key:
  assumes "g \<in> set ks" and "py_int g = None"
  shows "\<exists>s. py_int s = None \<and> ints_of ks = Inl (InvalidIntLiteral s)"
  using assms
proof (induction ks)
  case Nil
  then show ?case by simp
next
  case (Cons k ks)
  show ?case
  proof (cases "py_int k")
    case None
    then show ?thesis by auto
  next
    case (Some n)
    with Cons.prems have "g \<in> set ks" by auto
    from Cons.IH [OF this Cons.prems(2)] Some show ?thesis by auto
  qed
qed

lemma map_speakers_bad_key:
  assumes "g \<in> set (map fst existing)" and "py_int g = None"
  shows "\<exists>s. py_int s = None \<and> map_speakers new existing thr = Inl (InvalidIntLiteral s)"
proof -
  from assms(1) have ne: "existing \<noteq> []" by auto
  from ints_of_bad_key [OF assms] obtain s where
    "py_int s = None" and "ints_of (map fst existing) = Inl (InvalidIntLiteral s)"
    by blast
  with ne show ?thesis
    by (auto simp: map_speakers_def initial_next_id_def)
qed

lemma merge_loop_bad_key:
  assumes "g \<in> set (map fst (global_centroids st))" and "py_int g = None" and "0 < i"
    and "(f, off) \<in> set cfs" and "segments (content f) \<noteq> []"
  shows "\<exists>e. merge_loop offs cs i cfs st = Inl e \<and>
           (e = InhomogeneousShape \<or> (\<exists>s. e = InvalidIntLiteral s \<and> py_int s = None))"
  using assms
proof (induction cfs arbitrary: i st)
  case Nil
  then show ?case by simp
next
  case (Cons cf cfs)
  obtain f1 o1 where cf: "cf = (f1, o1)" by (cases cf)
  show ?case
  proof (cases "segments (content f1) = []")
    case True
    then have step: "process_chunk offs cs i (f1, o1) st = Inr st"
      by (simp add: process_chunk_def)
    from True Cons.prems(4,5) cf have "(f, off) \<in> set cfs" by auto
    from Cons.IH [OF Cons.prems(1,2) _ this Cons.prems(5), of "Suc i"] step cf
    show ?thesis by simp
  next
    case False
    show ?thesis
    proof (cases "get_speaker_centroids (segments (content f1))")
      case (Inl e)
      then have "e = InhomogeneousShape" by (rule get_speaker_centroids_error)
      with Inl False cf show ?thesis
        by (simp add: process_chunk_def)
    next
      case (Inr cc)
      from map_speakers_bad_key [OF Cons.prems(1,2)] obtain s where
        s: "py_int s = None"
        and "map_speakers cc (global_centroids st) default_threshold = Inl (InvalidIntLiteral s)"
        by blast
      with Cons.prems(3) have
        "resolve_speakers i cc (global_centroids st) = Inl (InvalidIntLiteral s)"
        by (simp add: resolve_speakers_def)
      with Inr False cf s show ?thesis
        by (simp add: process_chunk_def)
    qed
  qed
qed

text \<open>
  \<^verbatim>\<open>int\<close> does not strip the separator characters: an ID made of \<^verbatim>\<open>0x1C\<close> and a digit is
  rejected like any other ID that is not an integer literal.
\<close>

lemma py_int_separator: "py_int [CHR 0x1C, CHR ''5''] = None"
  by (simp add: py_int_eval)

text \<open>
  Claim C10. The mapper converts every key of the global centroids with \<^verbatim>\<open>int\<close> before
  it compares anything: when a key is not an integer literal it raises for every chunk and
  every threshold, whether or not a centroid would match. Hence, when the chunk at index 0
  has a speaker ID, of ASCII characters, that \<^verbatim>\<open>int\<close> rejects and a later chunk has
  segments, the merge returns nothing: it raises, with the error of that conversion unless
  the centroids of a chunk could not be computed before.
\<close>

theorem non_numeric_first_chunk_aborts:
  assumes "s \<in> set (segments (content f0))"
    and "list_all is_ascii (speakerId s)" and "py_int (speakerId s) = None"
    and "(f, off) \<in> set (zip fs offs)" and "segments (content f) \<noteq> []"
  shows "(\<exists>e. merge_chunks (f0 # fs) (off0 # offs) cs ov = Inl e \<and>
            (e = InhomogeneousShape \<or> (\<exists>g. e = InvalidIntLiteral g \<and> py_int g = None))) \<and>
         (\<forall>new existing thr. speakerId s \<in> set (map fst existing) \<longrightarrow>
            (\<exists>g. py_int g = None \<and>
                 map_speakers new existing thr = Inl (InvalidIntLiteral g)))"
proof
  from assms(1) have ne: "segments (content f0) \<noteq> []" by auto
  show "\<exists>e. merge_chunks (f0 # fs) (off0 # offs) cs ov = Inl e \<and>
            (e = InhomogeneousShape \<or> (\<exists>g. e = InvalidIntLiteral g \<and> py_int g = None))"
  proof (cases "get_speaker_centroids (segments (content f0))")
    case (Inl e)
    then have "e = InhomogeneousShape" by (rule get_speaker_centroids_error)
    with Inl ne show ?thesis
      by (simp add: merge_chunks_def process_chunk_def)
  next
    case (Inr cc)
    define st1 where "st1 =
      \<lparr>all_segments = all_segments initial_state @ map (shifted off0) (segments (content f0)),
       global_centroids = cc,
       total_duration = max (total_duration initial_state) (durationSeconds (content f0) + off0)\<rparr>"
    have step: "process_chunk (off0 # offs) cs 0 (f0, off0) initial_state = Inr st1"
      using first_chunk_step [OF ne, of "off0 # offs" cs off0 initial_state] Inr
      by (simp add: st1_def)
    have "speakerId s \<in> set (map fst cc)"
      using get_speaker_centroids_keys(2) [OF Inr] assms(1) by auto
    then have "speakerId s \<in> set (map fst (global_centroids st1))"
      by (simp add: st1_def)
    from merge_loop_bad_key [OF this assms(3) _ assms(4,5), of "Suc 0" "off0 # offs" cs]
    obtain e where "merge_loop (off0 # offs) cs (Suc 0) (zip fs offs) st1 = Inl e"
      and "e = InhomogeneousShape \<or> (\<exists>g. e = InvalidIntLiteral g \<and> py_int g = None)"
      by auto
    with step show ?thesis
      by (simp add: merge_chunks_def)
  qed
next
  show "\<forall>new existing thr. speakerId s \<in> set (map fst existing) \<longrightarrow>
            (\<exists>g. py_int g = None \<and>
                 map_speakers new existing thr = Inl (InvalidIntLiteral g))"
    using map_speakers_bad_key [OF _ assms(3)] by blast
qed

theorem non_numeric_first_chunk_aborts_witness:
  "\<lparr>startTimeSeconds = 0, endTimeSeconds = 5, speakerId = ''A'',
     qualityScore = 1, embedding = [1, 0]\<rparr> \<in> set (segments (content example_named)) \<and>
   list_all is_ascii ''A'' \<and>
   py_int ''A'' = None \<and>
   (example_later, 20) \<in> set (zip [example_empty, example_later] [10, 20]) \<and>
   segments (content example_later) \<noteq> [] \<and>
   (\<exists>e. merge_chunks (example_named # [example_empty, example_later]) (0 # [10, 20]) 10 3 =
          Inl e \<and>
        (e = InhomogeneousShape \<or> (\<exists>g. e = InvalidIntLiteral g \<and> py_int g = None))) \<and>
   (\<exists>g. py_int g = None \<and>
        map_speakers [(''2'', [2, 0])] [(''A'', [1, 0])] default_threshold =
          Inl (InvalidIntLiteral g))"
proof -
  define s :: segment where
    "s = \<lparr>startTimeSeconds = 0, endTimeSeconds = 5, speakerId = ''A'',
           qualityScore = 1, embedding = [1, 0]\<rparr>"
  have 1: "s \<in> set (segments (content example_named))"
    by (simp add: s_def example_named_def)
  have a: "list_all is_ascii (speakerId s)"
    by (simp add: s_def is_ascii_def)
  have 2: "py_int (speakerId s) = None"
    by (simp add: s_def py_int_eval)
  have 3: "(example_later, 20) \<in> set (zip [example_empty, example_later] [10, 20])"
    by simp
  have 4: "segments (content example_later) \<noteq> []"
    by (simp add: example_later_def)
  note t = non_numeric_first_chunk_aborts [OF 1 a 2 3 4, where ?off0.0 = 0 and cs = 10 and ov = 3]
  have 5: "speakerId s \<in> set (map fst [(''A'', [1 :: real, 0])])"
    by (simp add: s_def)
  note m = t [THEN conjunct2, THEN spec [of _ "[(''2'', [2, 0])]"],
      THEN spec [of _ "[(''A'', [1, 0])]"], THEN spec [of _ default_threshold], THEN mp, OF 5]
  from 1 a 2 3 4 t [THEN conjunct1] m show ?thesis
    by (simp add: s_def)
qed

subsection \<open>The mapper and the registry: new speakers\<close>

lemma minted_0: "minted n 0 = []"
  by (simp add: minted_def)

lemma minted_Suc: "minted n (Suc u) = py_str n # minted (n + 1) u"
proof -
  have "[0..<Suc u] = 0 # map Suc [0..<u]"
    by (simp add: upt_conv_Cons map_Suc_upt del: upt_Suc)
  then show ?thesis
    by (simp add: minted_def comp_def add.assoc del: upt_Suc)
qed

lemma minted_add: "minted n (u + w) = minted n u @ minted (n + int u) w"
proof (induction u arbitrary: n)
  case 0
  then show ?case by (simp add: minted_0)
next
  case (Suc u)
  have "n + 1 + int u = n + int (Suc u)" by simp
  with Suc [of "n + 1"] show ?case
    by (simp add: minted_Suc)
qed

lemma set_minted: "set (minted n u) = {py_str (n + int j) |j. j < u}"
  by (auto simp: minted_def)

lemma distinct_minted: "distinct (minted n u)"
  unfolding minted_def by (auto simp: distinct_map intro!: inj_onI dest: py_str_inj)

lemma update_absent: "k \<notin> set (map fst al) \<Longrightarrow> AList.update k v al = al @ [(k, v)]"
  by (induction al) auto

lemma best_match_loop_key:
  "best_match_loop c ex (bm, bs) = Inr (Some g, v) \<Longrightarrow> bm = Some g \<or> g \<in> set (map fst ex)"
proof (induction ex arbitrary: bm bs)
  case Nil
  then show ?case by simp
next
  case (Cons p ex)
  obtain g' e where p: "p = (g', e)" by (cases p)
  from Cons.prems p consider
    (keep) "best_match_loop c ex (bm, bs) = Inr (Some g, v)"
    | (take) u where "best_match_loop c ex (Some g', u) = Inr (Some g, v)"
    by (auto split: sum.splits npfloat.splits if_splits)
  then show ?case
  proof cases
    case keep
    from Cons.IH [OF keep] show ?thesis by auto
  next
    case take
    from Cons.IH [OF take] p show ?thesis by auto
  qed
qed

lemma map_speakers_loop_shape:
  assumes "map_speakers_loop new ex thr (m, n) = Inr (m', n')"
    and "distinct (map fst new)"
    and "set (map fst new) \<inter> set (map fst m) = {}"
    and "\<forall>k\<ge>n. py_str k \<notin> set (map fst ex)"
  shows "\<exists>u ys. n' = n + int u \<and> m' = m @ ys \<and> map fst ys = map fst new \<and>
           filter (\<lambda>v. v \<notin> set (map fst ex)) (map snd ys) = minted n u"
  using assms
proof (induction new arbitrary: m n)
  case Nil
  then show ?case by (simp add: minted_0)
next
  case (Cons p new)
  obtain s c where p: "p = (s, c)" by (cases p)
  from Cons.prems(2,3) p have s: "s \<notin> set (map fst m)" and s': "s \<notin> set (map fst new)"
    and d: "distinct (map fst new)" by auto
  from Cons.prems(1) p obtain bm bs where
    bml: "best_match_loop c ex (None, thr) = Inr (bm, bs)"
    by (auto split: sum.splits)
  show ?case
  proof (cases "truthy bm")
    case True
    then obtain g where g: "bm = Some g" by (auto simp: truthy_def split: option.splits)
    with bml have gin: "g \<in> set (map fst ex)"
      using best_match_loop_key [of c ex None thr g bs] by simp
    from Cons.prems(1) p bml True g have
      rest: "map_speakers_loop new ex thr (m @ [(s, g)], n) = Inr (m', n')"
      by (simp add: update_absent [OF s])
    have disj: "set (map fst new) \<inter> set (map fst (m @ [(s, g)])) = {}"
      using Cons.prems(3) s' by auto
    from Cons.IH [OF rest d disj Cons.prems(4)] obtain u ys where
      "n' = n + int u" "m' = (m @ [(s, g)]) @ ys" "map fst ys = map fst new"
      "filter (\<lambda>v. v \<notin> set (map fst ex)) (map snd ys) = minted n u"
      by blast
    with gin p show ?thesis
      by (intro exI [of _ u] exI [of _ "(s, g) # ys"]) simp
  next
    case False
    with Cons.prems(1) p bml have
      rest: "map_speakers_loop new ex thr (m @ [(s, py_str n)], n + 1) = Inr (m', n')"
      by (simp add: update_absent [OF s])
    have disj: "set (map fst new) \<inter> set (map fst (m @ [(s, py_str n)])) = {}"
      using Cons.prems(3) s' by auto
    have fresh: "\<forall>k\<ge>n + 1. py_str k \<notin> set (map fst ex)"
      using Cons.prems(4) by simp
    have nin: "py_str n \<notin> set (map fst ex)"
      using Cons.prems(4) by simp
    from Cons.IH [OF rest d disj fresh] obtain u ys where
      "n' = n + 1 + int u" "m' = (m @ [(s, py_str n)]) @ ys" "map fst ys = map fst new"
      "filter (\<lambda>v. v \<notin> set (map fst ex)) (map snd ys) = minted (n + 1) u"
      by blast
    with nin p show ?thesis
      by (intro exI [of _ "Suc u"] exI [of _ "(s, py_str n) # ys"]) (simp add: minted_Suc)
  qed
qed

lemma update_global_preserves:
  assumes "update_global sm cc g = Inr g'" and "map_of g x = Some v"
  shows "map_of g' x = Some v"
  using assms
proof (induction sm arbitrary: g)
  case Nil
  then show ?case by simp
next
  case (Cons p sm)
  obtain s w where p: "p = (s, w)" by (cases p)
  show ?case
  proof (cases "map_of g w = None")
    case True
    with Cons.prems(1) p obtain c where
      rest: "update_global sm cc (AList.update w c g) = Inr g'"
      by (auto split: option.splits)
    from True Cons.prems(2) have "w \<noteq> x" by auto
    with Cons.prems(2) have "map_of (AList.update w c g) x = Some v"
      by (simp add: AList.update_conv')
    from Cons.IH [OF rest this] show ?thesis .
  next
    case False
    with Cons.prems(1) p have "update_global sm cc g = Inr g'" by auto
    from Cons.IH [OF this Cons.prems(2)] show ?thesis .
  qed
qed

lemma update_global_distinct:
  assumes "update_global sm cc g = Inr g'" and "distinct (map fst g)"
  shows "distinct (map fst g')"
  using assms
proof (induction sm arbitrary: g)
  case Nil
  then show ?case by simp
next
  case (Cons p sm)
  obtain s w where p: "p = (s, w)" by (cases p)
  show ?case
  proof (cases "map_of g w = None")
    case True
    with Cons.prems(1) p obtain c where
      rest: "update_global sm cc (AList.update w c g) = Inr g'"
      by (auto split: option.splits)
    from Cons.IH [OF rest AList.distinct_update [OF Cons.prems(2)]] show ?thesis .
  next
    case False
    with Cons.prems(1) p have "update_global sm cc g = Inr g'" by auto
    from Cons.IH [OF this Cons.prems(2)] show ?thesis .
  qed
qed

lemma update_global_keys:
  assumes "update_global sm cc g = Inr g'"
    and "distinct (filter (\<lambda>v. v \<notin> set (map fst g)) (map snd sm))"
  shows "map fst g' = map fst g @ filter (\<lambda>v. v \<notin> set (map fst g)) (map snd sm)"
  using assms
proof (induction sm arbitrary: g)
  case Nil
  then show ?case by simp
next
  case (Cons p sm)
  obtain s w where p: "p = (s, w)" by (cases p)
  show ?case
  proof (cases "map_of g w = None")
    case True
    then have w: "w \<notin> set (map fst g)" by (simp add: map_of_None_keys)
    from True Cons.prems(1) p obtain c where
      rest: "update_global sm cc (AList.update w c g) = Inr g'"
      by (auto split: option.splits)
    have keys: "map fst (AList.update w c g) = map fst g @ [w]"
      using w by (simp add: AList.update_keys)
    from Cons.prems(2) p w have
      wn: "w \<notin> set (filter (\<lambda>v. v \<notin> set (map fst g)) (map snd sm))"
      and dist: "distinct (filter (\<lambda>v. v \<notin> set (map fst g)) (map snd sm))"
      by auto
    have same: "filter (\<lambda>v. v \<notin> set (map fst (AList.update w c g))) (map snd sm) =
                filter (\<lambda>v. v \<notin> set (map fst g)) (map snd sm)"
      unfolding keys using wn by (intro filter_cong) auto
    from Cons.IH [OF rest] dist same keys w p show ?thesis by simp
  next
    case False
    then have w: "w \<in> set (map fst g)"
      using map_of_None_keys [of g w] by simp
    from False Cons.prems(1) p have rest: "update_global sm cc g = Inr g'" by auto
    from Cons.prems(2) p w have "distinct (filter (\<lambda>v. v \<notin> set (map fst g)) (map snd sm))"
      by simp
    from Cons.IH [OF rest this] w p show ?thesis by simp
  qed
qed

lemma update_global_registers:
  assumes "update_global sm cc g = Inr g'"
    and "(s, x) \<in> set sm"
    and "x \<notin> set (map fst g)"
    and "\<forall>s'. (s', x) \<in> set sm \<longrightarrow> s' = s"
  shows "map_of g' x = map_of cc s"
  using assms
proof (induction sm arbitrary: g)
  case Nil
  then show ?case by simp
next
  case (Cons p sm)
  obtain s1 w where p: "p = (s1, w)" by (cases p)
  show ?case
  proof (cases "w = x")
    case True
    with Cons.prems(4) p have s1: "s1 = s" by auto
    from Cons.prems(3) have none: "map_of g x = None" by (simp add: map_of_None_keys)
    with Cons.prems(1) p True s1 obtain c where c: "map_of cc s = Some c"
      and rest: "update_global sm cc (AList.update x c g) = Inr g'"
      by (auto split: option.splits)
    have "map_of (AList.update x c g) x = Some c"
      by (simp add: AList.update_conv')
    from update_global_preserves [OF rest this] c show ?thesis by simp
  next
    case False
    with Cons.prems(2) p have mem: "(s, x) \<in> set sm" by auto
    from Cons.prems(4) p have uniq: "\<forall>s'. (s', x) \<in> set sm \<longrightarrow> s' = s" by auto
    show ?thesis
    proof (cases "map_of g w = None")
      case True
      with Cons.prems(1) p obtain c where
        rest: "update_global sm cc (AList.update w c g) = Inr g'"
        by (auto split: option.splits)
      have "x \<notin> set (map fst (AList.update w c g))"
        using Cons.prems(3) False by (auto simp: AList.update_keys)
      from Cons.IH [OF rest mem this uniq] show ?thesis .
    next
      case False
      with Cons.prems(1) p have rest: "update_global sm cc g = Inr g'" by auto
      from Cons.IH [OF rest mem Cons.prems(3) uniq] show ?thesis .
    qed
  qed
qed

lemma update_global_covers:
  assumes "update_global sm cc g = Inr g'"
  shows "set (map fst g) \<union> snd ` set sm \<subseteq> set (map fst g')"
  using assms
proof (induction sm arbitrary: g)
  case Nil
  then show ?case by simp
next
  case (Cons p sm)
  obtain s w where p: "p = (s, w)" by (cases p)
  show ?case
  proof (cases "map_of g w = None")
    case True
    with Cons.prems p obtain c where
      rest: "update_global sm cc (AList.update w c g) = Inr g'"
      by (auto split: option.splits)
    from Cons.IH [OF rest] p show ?thesis
      by (auto simp: AList.update_keys split: if_splits)
  next
    case False
    then have w: "w \<in> set (map fst g)"
      using map_of_None_keys [of g w] by simp
    from False Cons.prems p have rest: "update_global sm cc g = Inr g'" by auto
    from Cons.IH [OF rest] w p show ?thesis by auto
  qed
qed

lemma initial_next_id_fresh:
  assumes "initial_next_id ex = Inr n" and "n \<le> k"
  shows "py_str k \<notin> set (map fst ex)"
proof
  assume "py_str k \<in> set (map fst ex)"
  from initial_next_id_keys [OF assms(1) this] obtain m where
    "py_int (py_str k) = Some m" and "m < n" by blast
  with assms(2) show False by (simp add: py_int_py_str)
qed

lemma initial_next_id_max:
  assumes "initial_next_id ex = Inr n" and "ex \<noteq> []"
  shows "\<exists>g \<in> set (map fst ex). py_int g = Some (n - 1)"
proof -
  from assms obtain ns where ns: "ints_of (map fst ex) = Inr ns"
    and n: "n = fold max (tl ns) (hd ns) + 1"
    by (auto simp: initial_next_id_def split: sum.splits)
  have parse: "map py_int (map fst ex) = map Some ns"
    using ns by (rule ints_of_parse)
  then have "length ns = length ex"
    by (metis length_map)
  with assms(2) obtain x xs where xs: "ns = x # xs" by (cases ns) auto
  have "fold max (tl ns) (hd ns) = Max (set ns)"
    unfolding xs by (simp only: Max.set_eq_fold list.sel)
  moreover have "Max (set ns) \<in> set ns"
    by (rule Max_in) (simp_all add: xs)
  ultimately have "Some (n - 1) \<in> set (map Some ns)"
    using n by simp
  then have "Some (n - 1) \<in> set (map py_int (map fst ex))"
    by (simp only: parse)
  then have "Some (n - 1) \<in> py_int ` set (map fst ex)"
    by (simp only: set_map)
  then show ?thesis by (metis imageE)
qed

lemma initial_next_id_empty: "initial_next_id [] = Inr 1"
  by (simp add: initial_next_id_def)

lemma distinct_filter_unique:
  assumes "distinct (filter P (map snd xs))" and "P x"
    and "(s, x) \<in> set xs" and "(s', x) \<in> set xs"
  shows "s = s'"
  using assms
proof (induction xs)
  case Nil
  then show ?case by simp
next
  case (Cons q xs)
  show ?case
  proof (cases "snd q = x")
    case True
    with Cons.prems(1,2) have "x \<notin> set (filter P (map snd xs))" by auto
    with Cons.prems(2) have "x \<notin> snd ` set xs" by auto
    then have "(s, x) \<notin> set xs" and "(s', x) \<notin> set xs" by force+
    with Cons.prems(3,4) show ?thesis by auto
  next
    case False
    with Cons.prems have "(s, x) \<in> set xs" and "(s', x) \<in> set xs"
      and "distinct (filter P (map snd xs))"
      by (auto split: if_splits)
    with Cons.IH Cons.prems(2) show ?thesis by blast
  qed
qed

lemma minted_empty: "minted n u = [] \<longleftrightarrow> u = 0"
  by (simp add: minted_def)

lemma resolve_speakers_later:
  assumes "resolve_speakers i cc g = Inr (sm, g')" and "0 < i"
  shows "\<exists>n nf. initial_next_id g = Inr n \<and>
           map_speakers_loop cc g default_threshold ([], n) = Inr (sm, nf) \<and>
           update_global sm cc g = Inr g'"
proof -
  from assms have ms: "map_speakers cc g default_threshold = Inr sm"
    and "update_global sm cc g = Inr g'"
    by (auto simp: resolve_speakers_def split: sum.splits)
  with map_speakers_Inr [OF ms] show ?thesis by blast
qed

lemma process_chunk_preserves:
  assumes "process_chunk offs cs i (f, off) st = Inr st'" and "0 < i"
    and "map_of (global_centroids st) x = Some v"
  shows "map_of (global_centroids st') x = Some v"
proof (cases "segments (content f) = []")
  case True
  with assms show ?thesis by (simp add: process_chunk_def)
next
  case False
  from process_chunk_Inr [OF assms(1) False] obtain cc sm where
    "resolve_speakers i cc (global_centroids st) = Inr (sm, global_centroids st')"
    by blast
  from resolve_speakers_later [OF this assms(2)] have
    "update_global sm cc (global_centroids st) = Inr (global_centroids st')"
    by blast
  from update_global_preserves [OF this assms(3)] show ?thesis .
qed

lemma merge_loop_preserves:
  assumes "merge_loop offs cs i cfs st = Inr st'" and "0 < i"
    and "map_of (global_centroids st) x = Some v"
  shows "map_of (global_centroids st') x = Some v"
  using assms
proof (induction cfs arbitrary: i st)
  case Nil
  then show ?case by simp
next
  case (Cons cf cfs)
  obtain f off where cf: "cf = (f, off)" by (cases cf)
  from Cons.prems(1) cf obtain st1 where
    1: "process_chunk offs cs i (f, off) st = Inr st1"
    and 2: "merge_loop offs cs (Suc i) cfs st1 = Inr st'"
    by (auto split: sum.splits)
  from process_chunk_preserves [OF 1 Cons.prems(2,3)]
  have "map_of (global_centroids st1) x = Some v" .
  from Cons.IH [OF 2 _ this] show ?case by simp
qed

lemma mint_position:
  assumes loop: "map_speakers_loop cc g thr ([], n1) = Inr (sm, nf)"
    and dist: "distinct (map fst cc)"
    and p: "p < length cc" "cc ! p = (sid, c)"
    and fresh: "\<forall>k\<ge>n1. py_str k \<notin> set (map fst g)"
    and unmatched:
      "\<forall>j<length g. \<forall>u. cosine_similarity c (snd (g ! j)) = Inr (Val u) \<longrightarrow> u \<le> thr"
  shows "\<exists>u1. sm ! p = (sid, py_str (n1 + int u1)) \<and>
           filter (\<lambda>v. v \<notin> set (map fst g)) (map snd (take p sm)) = minted n1 u1"
proof -
  define pre where "pre = take p cc"
  define post where "post = drop (Suc p) cc"
  have cc: "cc = pre @ (sid, c) # post"
    unfolding pre_def post_def using p by (metis id_take_nth_drop)
  have lpre: "length pre = p"
    unfolding pre_def using p by simp
  from dist cc have dpre: "distinct (map fst pre)" and dpost: "distinct (map fst post)"
    and spre: "sid \<notin> set (map fst pre)" and spost: "sid \<notin> set (map fst post)"
    and disj: "set (map fst post) \<inter> set (map fst pre) = {}"
    by auto
  from loop obtain m1 n2 where
    1: "map_speakers_loop pre g thr ([], n1) = Inr (m1, n2)"
    and 2: "map_speakers_loop ((sid, c) # post) g thr (m1, n2) = Inr (sm, nf)"
    unfolding cc map_speakers_loop_append by (auto split: sum.splits)
  from map_speakers_loop_shape [OF 1 dpre _ fresh] obtain u1 where
    n2: "n2 = n1 + int u1" and keys1: "map fst m1 = map fst pre"
    and f1: "filter (\<lambda>v. v \<notin> set (map fst g)) (map snd m1) = minted n1 u1"
    by auto
  from keys1 have lm1: "length m1 = p"
    using lpre by (metis length_map)
  from 2 obtain r where r: "best_match_loop c g (None, thr) = Inr r"
    by (auto split: sum.splits)
  from best_match_loop_no_better [OF r unmatched] have "r = (None, thr)" .
  with 2 r have
    3: "map_speakers_loop post g thr (AList.update sid (py_str n2) m1, n2 + 1) = Inr (sm, nf)"
    by (simp add: truthy_def)
  have upd: "AList.update sid (py_str n2) m1 = m1 @ [(sid, py_str n2)]"
    using spre keys1 by (intro update_absent) simp
  have disj': "set (map fst post) \<inter> set (map fst (m1 @ [(sid, py_str n2)])) = {}"
    using disj spost keys1 by auto
  have fresh': "\<forall>k\<ge>n2 + 1. py_str k \<notin> set (map fst g)"
    using fresh n2 by simp
  from map_speakers_loop_shape [OF 3 [unfolded upd] dpost disj' fresh'] obtain ys where
    sm: "sm = (m1 @ [(sid, py_str n2)]) @ ys"
    by blast
  have "sm ! p = (sid, py_str n2)"
    using lm1 by (simp add: sm nth_append)
  moreover have "take p sm = m1"
    using lm1 by (simp add: sm)
  ultimately show ?thesis
    using f1 n2 by auto
qed

lemma unmatched_nth:
  assumes "\<forall>(gid, e) \<in> set g. \<forall>u. cosine_similarity c e = Inr (Val u) \<longrightarrow> u \<le> thr"
  shows "\<forall>j<length g. \<forall>u. cosine_similarity c (snd (g ! j)) = Inr (Val u) \<longrightarrow> u \<le> thr"
proof (intro allI impI)
  fix j u
  assume "j < length g" and sim: "cosine_similarity c (snd (g ! j)) = Inr (Val u)"
  then have "g ! j \<in> set g" by simp
  with assms sim show "u \<le> thr"
    by (cases "g ! j") auto
qed

lemma current_maximum:
  assumes n1: "initial_next_id g = Inr n1"
    and f1: "filter (\<lambda>v. v \<notin> set (map fst g)) vs = minted n1 u1"
  shows "list_all (\<lambda>x. py_int x \<noteq> None) (map fst g @ vs) \<and>
         n1 + int u1 =
           (if map fst g @ vs = [] then 1
            else Max (set (map (the \<circ> py_int) (map fst g @ vs))) + 1)"
proof -
  have split: "x \<in> set (map fst g) \<or> x \<in> set (minted n1 u1)" if "x \<in> set (map fst g @ vs)" for x
  proof (cases "x \<in> set (map fst g)")
    case True
    then show ?thesis by simp
  next
    case False
    with that have "x \<in> set (filter (\<lambda>v. v \<notin> set (map fst g)) vs)" by simp
    then have "x \<in> set (minted n1 u1)" by (simp only: f1)
    then show ?thesis by simp
  qed
  have bound: "\<exists>m. py_int x = Some m \<and> m \<le> n1 + int u1 - 1" if "x \<in> set (map fst g @ vs)" for x
    using split [OF that]
  proof
    assume "x \<in> set (map fst g)"
    from initial_next_id_keys [OF n1 this] show ?thesis by auto
  next
    assume "x \<in> set (minted n1 u1)"
    then obtain j where "j < u1" and "x = py_str (n1 + int j)"
      by (auto simp: set_minted)
    then show ?thesis by (simp add: py_int_py_str)
  qed
  have parse: "list_all (\<lambda>x. py_int x \<noteq> None) (map fst g @ vs)"
    unfolding list_all_iff using bound by fastforce
  show ?thesis
  proof (cases "map fst g @ vs = []")
    case True
    then have "g = []" and "vs = []" by simp_all
    with f1 have "minted n1 u1 = []" by simp
    then have "u1 = 0" by (simp only: minted_empty)
    moreover from n1 \<open>g = []\<close> have "n1 = 1" by (simp add: initial_next_id_empty)
    ultimately show ?thesis using parse True by simp
  next
    case False
    let ?S = "set (map (the \<circ> py_int) (map fst g @ vs))"
    have top: "n1 + int u1 - 1 \<in> ?S"
    proof (cases u1)
      case 0
      have "g \<noteq> []"
      proof
        assume "g = []"
        with f1 0 have "vs = []" by (simp add: minted_0)
        with \<open>g = []\<close> False show False by simp
      qed
      from initial_next_id_max [OF n1 this] obtain x where
        "x \<in> set (map fst g)" and "py_int x = Some (n1 - 1)" by blast
      then have "(the \<circ> py_int) x = n1 + int u1 - 1" and "x \<in> set (map fst g @ vs)"
        using 0 by simp_all
      then show ?thesis
        by (metis image_eqI set_map)
    next
      case (Suc w)
      then have "py_str (n1 + int w) \<in> set (minted n1 u1)"
        by (auto simp: set_minted)
      then have "py_str (n1 + int w) \<in> set (filter (\<lambda>v. v \<notin> set (map fst g)) vs)"
        by (simp only: f1)
      then have "py_str (n1 + int w) \<in> set (map fst g @ vs)" by simp
      moreover have "(the \<circ> py_int) (py_str (n1 + int w)) = n1 + int u1 - 1"
        using Suc by (simp add: py_int_py_str)
      ultimately show ?thesis
        by (metis image_eqI set_map)
    qed
    have le: "y \<le> n1 + int u1 - 1" if "y \<in> ?S" for y
    proof -
      from that obtain x where "x \<in> set (map fst g @ vs)" and "y = (the \<circ> py_int) x"
        by (auto simp del: set_append map_append)
      with bound [OF this(1)] show ?thesis by auto
    qed
    have "Max ?S = n1 + int u1 - 1"
      by (rule Max_eqI) (use top le in simp_all)
    then have eq: "n1 + int u1 = Max ?S + 1" by simp
    show ?thesis
      by (rule conjI [OF parse]) (simp only: False if_False eq)
  qed
qed

text \<open>
  Claim C3. In a chunk after index 0, take the local speaker at position \<open>p\<close> of the chunk's
  centroids, with no similarity to a global centroid above the threshold. It is mapped to
  \<^verbatim>\<open>str(n)\<close>, where \<open>n\<close> is one more than the greatest number among the global IDs in use at
  that moment (the keys of the registry and the IDs already given to the earlier local
  speakers of this chunk), or \<open>1\<close> when there is none; all of these IDs are integer
  literals. After the chunk the registry holds the speaker's centroid under \<^verbatim>\<open>str(n)\<close>, and
  so it does after any further chunks: the centroid is never recomputed.
\<close>

theorem new_speaker_minted:
  assumes "resolve_speakers i cc gc = Inr (sm, g')" and "0 < i"
    and "distinct (map fst cc)" and "p < length cc" and "cc ! p = (sid, c)"
    and "\<forall>(gid, e) \<in> set gc. \<forall>u. cosine_similarity c e = Inr (Val u) \<longrightarrow>
           u \<le> default_threshold"
  shows "\<exists>n. sm ! p = (sid, py_str n) \<and>
           list_all (\<lambda>x. py_int x \<noteq> None) (map fst gc @ map snd (take p sm)) \<and>
           n = (if map fst gc @ map snd (take p sm) = [] then 1
                else Max (set (map (the \<circ> py_int) (map fst gc @ map snd (take p sm)))) + 1) \<and>
           map_of g' (py_str n) = Some c \<and>
           (\<forall>offs cs j rest st st'.
              0 < j \<and> global_centroids st = g' \<and> merge_loop offs cs j rest st = Inr st' \<longrightarrow>
              map_of (global_centroids st') (py_str n) = Some c)"
proof -
  from resolve_speakers_later [OF assms(1,2)] obtain n1 nf where
    n1: "initial_next_id gc = Inr n1"
    and loop: "map_speakers_loop cc gc default_threshold ([], n1) = Inr (sm, nf)"
    and upd: "update_global sm cc gc = Inr g'"
    by blast
  have fresh: "\<forall>k\<ge>n1. py_str k \<notin> set (map fst gc)"
    using initial_next_id_fresh [OF n1] by blast
  from mint_position [OF loop assms(3-5) fresh unmatched_nth [OF assms(6)]] obtain u1 where
    at: "sm ! p = (sid, py_str (n1 + int u1))"
    and f1: "filter (\<lambda>v. v \<notin> set (map fst gc)) (map snd (take p sm)) = minted n1 u1"
    by blast
  from map_speakers_loop_shape [OF loop assms(3) _ fresh] obtain u where
    keys: "map fst sm = map fst cc"
    and f: "filter (\<lambda>v. v \<notin> set (map fst gc)) (map snd sm) = minted n1 u"
    by auto
  from keys have "length sm = length cc" by (metis length_map)
  with assms(4) at have mem: "(sid, py_str (n1 + int u1)) \<in> set sm"
    by (metis nth_mem)
  have notin: "py_str (n1 + int u1) \<notin> set (map fst gc)"
    using fresh by simp
  have dist: "distinct (filter (\<lambda>v. v \<notin> set (map fst gc)) (map snd sm))"
    by (simp only: f distinct_minted)
  have uniq: "\<forall>s'. (s', py_str (n1 + int u1)) \<in> set sm \<longrightarrow> s' = sid"
    using distinct_filter_unique [OF dist notin _ mem] by blast
  have "(sid, c) \<in> set cc"
    using assms(4,5) by (metis nth_mem)
  with assms(3) have "map_of cc sid = Some c" by simp
  with update_global_registers [OF upd mem notin uniq]
  have reg: "map_of g' (py_str (n1 + int u1)) = Some c" by simp
  have keep: "\<forall>offs cs j rest st st'.
      0 < j \<and> global_centroids st = g' \<and> merge_loop offs cs j rest st = Inr st' \<longrightarrow>
      map_of (global_centroids st') (py_str (n1 + int u1)) = Some c"
    using merge_loop_preserves reg by blast
  from current_maximum [OF n1 f1] at reg keep show ?thesis
    by (intro exI [of _ "n1 + int u1"]) blast
qed

theorem new_speaker_minted_witness:
  "resolve_speakers 2 [(''1'', [0, 1]), (''2'', [2, 0])] [(''1'', [1, 0])] =
     Inr ([(''1'', ''2''), (''2'', ''1'')], [(''1'', [1, 0]), (''2'', [0, 1])]) \<and>
   (0 :: nat) < 2 \<and>
   distinct (map fst [(''1'', [0, 1 :: real]), (''2'', [2, 0])]) \<and>
   0 < length [(''1'', [0, 1 :: real]), (''2'', [2, 0])] \<and>
   [(''1'', [0, 1 :: real]), (''2'', [2, 0])] ! 0 = (''1'', [0, 1]) \<and>
   (\<exists>n. [(''1'', ''2''), (''2'', ''1'')] ! 0 = (''1'', py_str n) \<and>
        list_all (\<lambda>x. py_int x \<noteq> None)
          (map fst [(''1'', [1 :: real, 0])] @ map snd (take 0 [(''1'', ''2''), (''2'', ''1'')])) \<and>
        n = (if map fst [(''1'', [1 :: real, 0])] @
                  map snd (take 0 [(''1'', ''2''), (''2'', ''1'')]) = [] then 1
             else Max (set (map (the \<circ> py_int)
                    (map fst [(''1'', [1 :: real, 0])] @
                     map snd (take 0 [(''1'', ''2''), (''2'', ''1'')])))) + 1) \<and>
        map_of [(''1'', [1 :: real, 0]), (''2'', [0, 1])] (py_str n) = Some [0, 1] \<and>
        (\<forall>offs cs j rest st st'.
           0 < j \<and> global_centroids st = [(''1'', [1, 0]), (''2'', [0, 1])] \<and>
           merge_loop offs cs j rest st = Inr st' \<longrightarrow>
           map_of (global_centroids st') (py_str n) = Some [0, 1]))"
proof -
  have 1: "resolve_speakers 2 [(''1'', [0, 1]), (''2'', [2, 0])] [(''1'', [1, 0])] =
     Inr ([(''1'', ''2''), (''2'', ''1'')], [(''1'', [1, 0]), (''2'', [0, 1])])"
    by (simp add: resolve_speakers_def map_speakers_eval)
  have 2: "(0 :: nat) < 2" by simp
  have 3: "distinct (map fst [(''1'', [0, 1 :: real]), (''2'', [2, 0])])" by simp
  have 4: "0 < length [(''1'', [0, 1 :: real]), (''2'', [2, 0])]" by simp
  have 5: "[(''1'', [0, 1 :: real]), (''2'', [2, 0])] ! 0 = (''1'', [0, 1])" by simp
  have 6: "\<forall>(gid, e) \<in> set [(''1'', [1 :: real, 0])].
             \<forall>u. cosine_similarity [0, 1] e = Inr (Val u) \<longrightarrow> u \<le> default_threshold"
    by (simp add: similarity_eval default_threshold_def)
  from 1 2 3 4 5 new_speaker_minted [OF 1 2 3 4 5 6] show ?thesis
    by - (intro conjI, assumption+)
qed

subsection \<open>The global IDs during a run\<close>

lemma registry_shape_step:
  assumes shape: "registry_shape ids0 (map fst g)"
    and n1: "initial_next_id g = Inr n1"
    and g': "map fst g' = map fst g @ minted n1 u"
  shows "registry_shape ids0 (map fst g')"
proof (cases "u = 0")
  case True
  with g' shape show ?thesis by (simp add: minted_0)
next
  case False
  from shape obtain n k where ks: "map fst g = ids0 @ minted n k"
    and one: "ids0 = [] \<longrightarrow> n = 1"
    and pos: "0 < k \<longrightarrow>
           (\<forall>x \<in> set ids0. \<exists>m. py_int x = Some m \<and> m < n) \<and>
           (ids0 \<noteq> [] \<longrightarrow> (\<exists>x \<in> set ids0. py_int x = Some (n - 1)))"
    unfolding registry_shape_def by blast
  show ?thesis
  proof (cases "k = 0")
    case True
    with ks have keys: "map fst g = ids0" by (simp add: minted_0)
    have a: "ids0 = [] \<longrightarrow> n1 = 1"
      using keys n1 by (auto simp: initial_next_id_empty)
    have b: "\<forall>x \<in> set ids0. \<exists>m. py_int x = Some m \<and> m < n1"
      using initial_next_id_keys [OF n1] keys by simp
    have c: "ids0 \<noteq> [] \<longrightarrow> (\<exists>x \<in> set ids0. py_int x = Some (n1 - 1))"
    proof
      assume "ids0 \<noteq> []"
      with keys have "g \<noteq> []" by auto
      from initial_next_id_max [OF n1 this] keys
      show "\<exists>x \<in> set ids0. py_int x = Some (n1 - 1)" by simp
    qed
    have "map fst g' = ids0 @ minted n1 u"
      using g' keys by simp
    with a b c show ?thesis
      unfolding registry_shape_def by blast
  next
    case False
    then have k: "0 < k" by simp
    with pos have below: "\<forall>x \<in> set ids0. \<exists>m. py_int x = Some m \<and> m < n" by blast
    have "g \<noteq> []"
      using ks k by (auto simp: minted_empty)
    from initial_next_id_max [OF n1 this] obtain x where
      x: "x \<in> set (map fst g)" "py_int x = Some (n1 - 1)" by blast
    have "py_str (n + int (k - 1)) \<in> set (minted n k)"
      unfolding set_minted using k by (intro CollectI exI [of _ "k - 1"]) simp
    then have last: "py_str (n + int (k - 1)) \<in> set (map fst g)"
      by (simp add: ks)
    from initial_next_id_keys [OF n1 last] have up: "n + int (k - 1) < n1"
      by (simp add: py_int_py_str)
    have "n1 - 1 \<le> n + int (k - 1)"
    proof (cases "x \<in> set ids0")
      case True
      with below x(2) have "n1 - 1 < n" by auto
      then show ?thesis by simp
    next
      case False
      with x(1) have "x \<in> set (minted n k)" by (simp add: ks)
      then obtain j where "j < k" and "x = py_str (n + int j)"
        by (auto simp: set_minted)
      with x(2) have "n1 - 1 = n + int j" by (simp add: py_int_py_str)
      with \<open>j < k\<close> show ?thesis by simp
    qed
    with up have eq: "n1 = n + int k"
      using k by simp
    have "map fst g' = ids0 @ minted n (k + u)"
      using g' ks by (simp add: minted_add eq)
    moreover have "0 < k + u" using k by simp
    ultimately show ?thesis
      unfolding registry_shape_def using one pos k by blast
  qed
qed

lemma resolve_speakers_later_keys:
  assumes "resolve_speakers i cc g = Inr (sm, g')" and "0 < i" and "distinct (map fst cc)"
  shows "\<exists>n1 u. initial_next_id g = Inr n1 \<and> map fst g' = map fst g @ minted n1 u"
    and "snd ` set sm \<subseteq> set (map fst g')"
proof -
  from resolve_speakers_later [OF assms(1,2)] obtain n1 nf where
    n1: "initial_next_id g = Inr n1"
    and loop: "map_speakers_loop cc g default_threshold ([], n1) = Inr (sm, nf)"
    and upd: "update_global sm cc g = Inr g'"
    by blast
  have fresh: "\<forall>k\<ge>n1. py_str k \<notin> set (map fst g)"
    using initial_next_id_fresh [OF n1] by blast
  from map_speakers_loop_shape [OF loop assms(3) _ fresh] obtain u where
    f: "filter (\<lambda>v. v \<notin> set (map fst g)) (map snd sm) = minted n1 u"
    by auto
  have "distinct (filter (\<lambda>v. v \<notin> set (map fst g)) (map snd sm))"
    by (simp only: f distinct_minted)
  from update_global_keys [OF upd this] f have "map fst g' = map fst g @ minted n1 u"
    by simp
  with n1 show "\<exists>n1 u. initial_next_id g = Inr n1 \<and> map fst g' = map fst g @ minted n1 u"
    by blast
  from update_global_covers [OF upd] show "snd ` set sm \<subseteq> set (map fst g')"
    by simp
qed

lemma process_segments_speakers:
  assumes "process_segments offs cs i off sm segs acc = Inr r"
  shows "speakerId ` set r \<subseteq> speakerId ` set acc \<union> snd ` set sm"
  using assms
proof (induction segs arbitrary: acc)
  case Nil
  then show ?case by auto
next
  case (Cons s segs)
  from Cons.prems consider
    (skip) "process_segments offs cs i off sm segs acc = Inr r"
    | (emit) g where "map_of sm (speakerId s) = Some g"
      and "process_segments offs cs i off sm segs
             (acc @ [\<lparr>startTimeSeconds = startTimeSeconds s + off,
                      endTimeSeconds = endTimeSeconds s + off, speakerId = g,
                      qualityScore = qualityScore s, embedding = embedding s\<rparr>]) = Inr r"
    by (auto simp: Let_def split: sum.splits bool.splits option.splits)
  then show ?case
  proof cases
    case skip
    from Cons.IH [OF skip] show ?thesis .
  next
    case emit
    from emit(1) have "g \<in> snd ` set sm"
      by (metis image_eqI map_of_SomeD snd_conv)
    with Cons.IH [OF emit(2)] show ?thesis by auto
  qed
qed

lemma process_chunk_invariant:
  assumes step: "process_chunk offs cs i (f, off) st = Inr st'" and i: "0 < i"
    and inv: "registry_invariant ids0 st"
  shows "registry_invariant ids0 st'"
proof (cases "segments (content f) = []")
  case True
  with step inv show ?thesis by (simp add: process_chunk_def)
next
  case False
  from process_chunk_Inr [OF step False] obtain cc sm where
    cc: "get_speaker_centroids (segments (content f)) = Inr cc"
    and res: "resolve_speakers i cc (global_centroids st) = Inr (sm, global_centroids st')"
    and segs: "process_segments offs cs i off sm (segments (content f)) (all_segments st) =
                 Inr (all_segments st')"
    by blast
  have dcc: "distinct (map fst cc)"
    using cc by (rule get_speaker_centroids_keys)
  from resolve_speakers_later [OF res i] have
    upd: "update_global sm cc (global_centroids st) = Inr (global_centroids st')"
    by blast
  from resolve_speakers_later_keys(1) [OF res i dcc] obtain n1 u where
    n1: "initial_next_id (global_centroids st) = Inr n1"
    and keys: "map fst (global_centroids st') = map fst (global_centroids st) @ minted n1 u"
    by blast
  have covers: "snd ` set sm \<subseteq> set (map fst (global_centroids st'))"
    using res i dcc by (rule resolve_speakers_later_keys(2))
  from inv have d: "distinct (map fst (global_centroids st))"
    and shape: "registry_shape ids0 (map fst (global_centroids st))"
    and ids: "speakerId ` set (all_segments st) \<subseteq> set (map fst (global_centroids st))"
    by (simp_all add: registry_invariant_def)
  have 1: "distinct (map fst (global_centroids st'))"
    using upd d by (rule update_global_distinct)
  have 2: "registry_shape ids0 (map fst (global_centroids st'))"
    using shape n1 keys by (rule registry_shape_step)
  have "set (map fst (global_centroids st)) \<subseteq> set (map fst (global_centroids st'))"
    by (simp only: keys set_append) blast
  with process_segments_speakers [OF segs] ids covers
  have 3: "speakerId ` set (all_segments st') \<subseteq> set (map fst (global_centroids st'))"
    by blast
  from 1 2 3 show ?thesis by (simp add: registry_invariant_def)
qed

lemma merge_loop_invariant:
  assumes "merge_loop offs cs i cfs st = Inr st'" and "0 < i"
    and "registry_invariant ids0 st"
  shows "registry_invariant ids0 st'"
  using assms
proof (induction cfs arbitrary: i st)
  case Nil
  then show ?case by simp
next
  case (Cons cf cfs)
  obtain f off where cf: "cf = (f, off)" by (cases cf)
  from Cons.prems(1) cf obtain st1 where
    1: "process_chunk offs cs i (f, off) st = Inr st1"
    and 2: "merge_loop offs cs (Suc i) cfs st1 = Inr st'"
    by (auto split: sum.splits)
  from process_chunk_invariant [OF 1 Cons.prems(2,3)]
  have "registry_invariant ids0 st1" .
  from Cons.IH [OF 2 _ this] show ?case by simp
qed

lemma registry_shape_initial: "registry_shape ids0 ids0"
  unfolding registry_shape_def by (intro exI [of _ 1] exI [of _ 0]) (simp add: minted_0)

lemma get_speaker_centroids_Nil: "get_speaker_centroids [] = Inr []"
  by (simp add: get_speaker_centroids_def)

lemma speakerId_shifted: "speakerId (shifted off s) = speakerId s"
  by (simp add: shifted_def)

lemma merge_loop_from_start:
  assumes "merge_loop offs cs 0 (zip fs offs') initial_state = Inr st"
  shows "registry_invariant (first_chunk_ids fs offs') st"
proof (cases "zip fs offs'")
  case Nil
  with assms have "st = initial_state" by simp
  moreover have "first_chunk_ids fs offs' = []"
    unfolding first_chunk_ids_def Nil by simp
  ultimately show ?thesis
    by (simp add: registry_invariant_def initial_state_def registry_shape_initial)
next
  case (Cons cf cfs)
  obtain f off where cf: "cf = (f, off)" by (cases cf)
  from assms Cons cf obtain st1 where
    1: "process_chunk offs cs 0 (f, off) initial_state = Inr st1"
    and 2: "merge_loop offs cs (Suc 0) cfs st1 = Inr st"
    by (auto split: sum.splits)
  have "registry_invariant (first_chunk_ids fs offs') st1"
  proof (cases "segments (content f) = []")
    case True
    with 1 have "st1 = initial_state" by (simp add: process_chunk_def)
    moreover have "first_chunk_ids fs offs' = []"
      unfolding first_chunk_ids_def Cons cf by (simp add: True get_speaker_centroids_Nil)
    ultimately show ?thesis
      by (simp add: registry_invariant_def initial_state_def registry_shape_initial)
  next
    case False
    from 1 first_chunk_step [OF False, of offs cs off initial_state] obtain cc where
      cc: "get_speaker_centroids (segments (content f)) = Inr cc"
      and g: "global_centroids st1 = cc"
      and a: "all_segments st1 =
                all_segments initial_state @ map (shifted off) (segments (content f))"
      by (auto split: sum.splits)
    have ids: "first_chunk_ids fs offs' = map fst cc"
      unfolding first_chunk_ids_def Cons cf by (simp add: cc)
    have "speakerId ` set (all_segments st1) \<subseteq> set (map fst cc)"
      using get_speaker_centroids_keys(2) [OF cc]
      by (auto simp: a initial_state_def speakerId_shifted)
    with get_speaker_centroids_keys(1) [OF cc] show ?thesis
      by (simp add: registry_invariant_def ids g registry_shape_initial)
  qed
  from merge_loop_invariant [OF 2 _ this] show ?thesis by simp
qed

text \<open>
  Claim C6, as amended. After a merge that returns, the keys of the registry are distinct;
  they are the speaker IDs of the chunk at index 0, unchanged, followed by the minted IDs
  \<^verbatim>\<open>str(n)\<close>, \<^verbatim>\<open>str(n + 1)\<close>, ... in this order, where \<open>n\<close> is 1 when the chunk at index 0
  gave no ID and otherwise, if an ID was minted at all, one more than the greatest of its
  IDs, which are then all integer literals; and every speaker ID of the output is a key of
  the registry.
\<close>

theorem global_ids_invariant:
  assumes "merge_chunks fs offs cs ov = Inr r"
  shows "\<exists>st. merge_loop offs cs 0 (zip fs offs) initial_state = Inr st \<and>
           distinct (map fst (global_centroids st)) \<and>
           speakerId ` set (segments r) \<subseteq> set (map fst (global_centroids st)) \<and>
           (\<exists>n k. map fst (global_centroids st) = first_chunk_ids fs offs @ minted n k \<and>
              (first_chunk_ids fs offs = [] \<longrightarrow> n = 1) \<and>
              (0 < k \<longrightarrow>
                 (\<forall>g \<in> set (first_chunk_ids fs offs). \<exists>m. py_int g = Some m \<and> m < n) \<and>
                 (first_chunk_ids fs offs \<noteq> [] \<longrightarrow>
                    (\<exists>g \<in> set (first_chunk_ids fs offs). py_int g = Some (n - 1)))))"
proof -
  from assms obtain st where
    st: "merge_loop offs cs 0 (zip fs offs) initial_state = Inr st"
    and r: "segments r = sort_key startTimeSeconds (all_segments st)"
    by (auto simp: merge_chunks_def split: sum.splits)
  from merge_loop_from_start [OF st] have
    "distinct (map fst (global_centroids st))"
    and "registry_shape (first_chunk_ids fs offs) (map fst (global_centroids st))"
    and "speakerId ` set (segments r) \<subseteq> set (map fst (global_centroids st))"
    by (simp_all add: registry_invariant_def r)
  with st show ?thesis
    unfolding registry_shape_def by blast
qed

theorem global_ids_invariant_witness:
  "merge_chunks [example_first, example_empty, example_later] [0, 10, 20] 10 3 =
     Inr example_merged \<and>
   (\<exists>st. merge_loop [0, 10, 20] 10 0
           (zip [example_first, example_empty, example_later] [0, 10, 20]) initial_state =
           Inr st \<and>
         distinct (map fst (global_centroids st)) \<and>
         speakerId ` set (segments example_merged) \<subseteq> set (map fst (global_centroids st)) \<and>
         (\<exists>n k. map fst (global_centroids st) =
                  first_chunk_ids [example_first, example_empty, example_later] [0, 10, 20] @
                  minted n k \<and>
            (first_chunk_ids [example_first, example_empty, example_later] [0, 10, 20] = [] \<longrightarrow>
               n = 1) \<and>
            (0 < k \<longrightarrow>
               (\<forall>g \<in> set (first_chunk_ids [example_first, example_empty, example_later]
                            [0, 10, 20]).
                  \<exists>m. py_int g = Some m \<and> m < n) \<and>
               (first_chunk_ids [example_first, example_empty, example_later] [0, 10, 20] \<noteq> [] \<longrightarrow>
                  (\<exists>g \<in> set (first_chunk_ids [example_first, example_empty, example_later]
                               [0, 10, 20]).
                     py_int g = Some (n - 1))))))"
  by (rule conjI [OF merge_chunks_example global_ids_invariant [OF merge_chunks_example]])

text \<open>
  The claim as first stated lets the global IDs start from 1 and grow. The IDs of the chunk
  at index 0 are kept as they are: with the speakers 7 and 3 the global IDs are 7 and 3, in
  this order.
\<close>

theorem global_ids_counterexample:
  "merge_chunks [example_unordered] [0] 10 3 =
   Inr \<lparr>segments =
          [\<lparr>startTimeSeconds = 0, endTimeSeconds = 1, speakerId = ''7'',
            qualityScore = 1, embedding = [1, 0]\<rparr>,
           \<lparr>startTimeSeconds = 1, endTimeSeconds = 2, speakerId = ''3'',
            qualityScore = 1, embedding = [0, 1]\<rparr>],
        durationSeconds = 10,
        audioFile = ''merged'', config_merged = True, config_chunks = 1,
        speakerCount = 2, timestamp = 9\<rparr>"
proof -
  have "process_chunk [0] 10 0 (example_unordered, 0) initial_state =
        Inr \<lparr>all_segments =
               [\<lparr>startTimeSeconds = 0, endTimeSeconds = 1, speakerId = ''7'',
                 qualityScore = 1, embedding = [1, 0]\<rparr>,
                \<lparr>startTimeSeconds = 1, endTimeSeconds = 2, speakerId = ''3'',
                 qualityScore = 1, embedding = [0, 1]\<rparr>],
             global_centroids = [(''7'', [1, 0]), (''3'', [0, 1])],
             total_duration = 10\<rparr>"
    by (simp add: merge_eval example_unordered_def)
  then have "merge_loop [0] 10 0 [(example_unordered, 0)] initial_state =
        Inr \<lparr>all_segments =
               [\<lparr>startTimeSeconds = 0, endTimeSeconds = 1, speakerId = ''7'',
                 qualityScore = 1, embedding = [1, 0]\<rparr>,
                \<lparr>startTimeSeconds = 1, endTimeSeconds = 2, speakerId = ''3'',
                 qualityScore = 1, embedding = [0, 1]\<rparr>],
             global_centroids = [(''7'', [1, 0]), (''3'', [0, 1])],
             total_duration = 10\<rparr>"
    by simp
  then show ?thesis
    by (simp add: merge_chunks_def example_unordered_def del: merge_loop.simps)
qed

end
